theory Spec2Isabelle
  imports Complex_Main "HOL-Library.Log_Nat"
begin

section \<open>api2html: the engine package\<close>

text \<open>
  A shallow embedding of \<^verbatim>\<open>engine/mustache.go\<close> and \<^verbatim>\<open>engine/handler.go\<close>.
  A Go \<^verbatim>\<open>error\<close> is modelled by its message; the \<^verbatim>\<open>nil\<close> error is \<open>None\<close>.
  A Go function returning \<^verbatim>\<open>(T, error)\<close> whose value is read only when the error is
  \<^verbatim>\<open>nil\<close> returns \<open>error + T\<close>; where the source hands both components on
  unchanged, the model keeps the pair.
\<close>

type_synonym error = string

subsection \<open>The partial provider (mustache.go, lines 86 to 107)\<close>

text \<open>
  \<^verbatim>\<open>mustache.PartialProvider\<close> is the interface \<^verbatim>\<open>Get(name string) (string, error)\<close>.
\<close>

type_synonym PartialProvider = "string \<Rightarrow> string \<times> error option"

record partialProvider =
  statics :: PartialProvider
  dynamc :: PartialProvider

text \<open>
  \<^verbatim>\<open>
  func (sp *partialProvider) Get(name string) (string, error) {
      if data, err := sp.statics.Get(name); err == nil && data != "" {
          return data, nil
      }
      return sp.dynamc.Get(name)
  }
  \<close>
\<close>

definition Get :: "partialProvider \<Rightarrow> string \<Rightarrow> string \<times> error option" where
  "Get sp name =
     (case statics sp name of
        (data, err) \<Rightarrow>
          if err = None \<and> data \<noteq> '''' then (data, None)
          else dynamc sp name)"

text \<open>
  A provider backed by a finite pool of partials, used to write the pools of the
  scenarios down: a name that is present yields its text, any other name the empty text.
\<close>

definition poolProvider :: "(string \<times> string) list \<Rightarrow> PartialProvider" where
  "poolProvider pool name =
     (case map_of pool name of Some text \<Rightarrow> (text, None) | None \<Rightarrow> ('''', None))"

text \<open>A provider that fails on every name.\<close>

definition failingProvider :: "error \<Rightarrow> PartialProvider" where
  "failingProvider e name = ('''', Some e)"

subsection \<open>Compiling the declared templates (mustache.go, lines 12 to 84)\<close>

text \<open>
  What the package takes from outside: the file system (\<^verbatim>\<open>os.Open\<close>,
  \<^verbatim>\<open>ioutil.ReadAll\<close>), the parser of the mustache library and the package variable
  \<^verbatim>\<open>customPartialProvider\<close>. \<open>'f\<close> is an open file, \<open>'t\<close> a parsed
  \<^verbatim>\<open>*mustache.Template\<close>. Log lines and \<^verbatim>\<open>templateFile.Close()\<close> change nothing that
  the functions return and are left out.
\<close>

record ('f, 't) Files =
  Open :: "string \<Rightarrow> error + 'f"
  ReadAll :: "'f \<Rightarrow> error + string"
  ParseStringPartials :: "string \<Rightarrow> partialProvider \<Rightarrow> error + 't"
  customPartialProvider :: partialProvider

text \<open>
  \<^verbatim>\<open>Config\<close> is declared outside the two files; \<^verbatim>\<open>NewMustacheRendererMap\<close> reads its
  fields \<^verbatim>\<open>Templates\<close> and \<^verbatim>\<open>Layouts\<close>, both \<^verbatim>\<open>map[string]string\<close> from a name to
  a path. Go visits the entries of a map in an order it does not fix, and the function
  returns in the middle of the visit, so each map is given as its entries in the order in
  which \<^verbatim>\<open>range\<close> visits them.
\<close>

record Config =
  Templates :: "(string \<times> string) list"
  Layouts :: "(string \<times> string) list"

record 't MustacheRenderer =
  tmpl :: 't

definition newMustacheTemplate :: "('f, 't) Files \<Rightarrow> 'f \<Rightarrow> error + 't" where
  "newMustacheTemplate env r =
     (case ReadAll env r of
        Inl err \<Rightarrow> Inl err
      | Inr data \<Rightarrow> ParseStringPartials env data (customPartialProvider env))"

definition NewMustacheRenderer :: "('f, 't) Files \<Rightarrow> 'f \<Rightarrow> error + 't MustacheRenderer" where
  "NewMustacheRenderer env r =
     (case newMustacheTemplate env r of
        Inl err \<Rightarrow> Inl err
      | Inr t \<Rightarrow> Inr \<lparr>tmpl = t\<rparr>)"

text \<open>
  The inner loop, \<^verbatim>\<open>for name, path := range section\<close>: each \<^verbatim>\<open>return result, err\<close>
  leaves the whole function with the map as it is at that moment.
\<close>

fun compileSection ::
  "('f, 't) Files \<Rightarrow> (string \<times> string) list \<Rightarrow> (string \<rightharpoonup> 't MustacheRenderer)
     \<Rightarrow> (string \<rightharpoonup> 't MustacheRenderer) \<times> error option" where
  "compileSection env [] result = (result, None)"
| "compileSection env ((name, path) # rest) result =
     (case Open env path of
        Inl err \<Rightarrow> (result, Some err)
      | Inr templateFile \<Rightarrow>
          (case NewMustacheRenderer env templateFile of
             Inl err \<Rightarrow> (result, Some err)
           | Inr renderer \<Rightarrow> compileSection env rest (result(name \<mapsto> renderer))))"

text \<open>The outer loop, over \<^verbatim>\<open>[]map[string]string{cfg.Templates, cfg.Layouts}\<close>.\<close>

fun compileSections ::
  "('f, 't) Files \<Rightarrow> (string \<times> string) list list \<Rightarrow> (string \<rightharpoonup> 't MustacheRenderer)
     \<Rightarrow> (string \<rightharpoonup> 't MustacheRenderer) \<times> error option" where
  "compileSections env [] result = (result, None)"
| "compileSections env (section # rest) result =
     (case compileSection env section result of
        (result', Some err) \<Rightarrow> (result', Some err)
      | (result', None) \<Rightarrow> compileSections env rest result')"

definition NewMustacheRendererMap ::
  "('f, 't) Files \<Rightarrow> Config \<Rightarrow> (string \<rightharpoonup> 't MustacheRenderer) \<times> error option" where
  "NewMustacheRendererMap env cfg = compileSections env [Templates cfg, Layouts cfg] Map.empty"

text \<open>
  What one entry goes through, the open and the parse: the renderer or the error that the
  loop body meets at a path.
\<close>

definition compileFile :: "('f, 't) Files \<Rightarrow> string \<Rightarrow> error + 't MustacheRenderer" where
  "compileFile env path =
     (case Open env path of
        Inl err \<Rightarrow> Inl err
      | Inr templateFile \<Rightarrow> NewMustacheRenderer env templateFile)"

text \<open>
  A small file system to run the function on: a file is its text, a path that is not
  listed does not open, and the parser refuses a source that opens a tag it never closes
  (here: a source ending in \<open>{{\<close>) and keeps any other source as the template.
\<close>

definition diskOpen :: "(string \<times> string) list \<Rightarrow> string \<Rightarrow> error + string" where
  "diskOpen disk path =
     (case map_of disk path of
        None \<Rightarrow> Inl (''open '' @ path @ '': no such file or directory'')
      | Some text \<Rightarrow> Inr text)"

definition readText :: "string \<Rightarrow> error + string" where
  "readText file = Inr file"

definition parseClosedTags :: "string \<Rightarrow> partialProvider \<Rightarrow> error + string" where
  "parseClosedTags data provider =
     (if take 2 (rev data) = ''{{'' then Inl ''unmatched open tag'' else Inr data)"

definition diskFiles :: "(string \<times> string) list \<Rightarrow> (string, string) Files" where
  "diskFiles disk =
     \<lparr>Open = diskOpen disk, ReadAll = readText, ParseStringPartials = parseClosedTags,
      customPartialProvider =
        \<lparr>statics = poolProvider [(''api2html/debug'', ''<pre>{{.}}</pre>'')],
         dynamc = poolProvider []\<rparr>\<rparr>"

text \<open>Whether the loop body gets a renderer out of a path.\<close>

definition compiles :: "('f, 't) Files \<Rightarrow> string \<Rightarrow> bool" where
  "compiles env path = (case compileFile env path of Inl err \<Rightarrow> False | Inr renderer \<Rightarrow> True)"

definition siteDisk :: "(string \<times> string) list" where
  "siteDisk =
     [(''home.mustache'', ''<h1>{{title}}</h1>''),
      (''broken.mustache'', ''<p>{{''),
      (''base.mustache'', ''<html>{{{content}}}</html>'')]"

subsection \<open>Durations and the Cache-Control value (handler.go, lines 46 to 50)\<close>

text \<open>
  A \<^verbatim>\<open>time.Duration\<close> is a count of nanoseconds (an \<^verbatim>\<open>int64\<close>). The only
  operations on it here are the quotient and the remainder by \<^verbatim>\<open>Second\<close>, which cannot
  overflow, so it is an integer.
\<close>

type_synonym Duration = int

definition Second :: Duration where
  "Second = 1000000000"

definition Minute :: Duration where
  "Minute = 60 * Second"

definition Hour :: Duration where
  "Hour = 60 * Minute"

text \<open>Go's \<^verbatim>\<open>/\<close> and \<^verbatim>\<open>%\<close> on integers truncate toward zero.\<close>

definition quo :: "int \<Rightarrow> int \<Rightarrow> int" where
  "quo a b = sgn a * sgn b * (\<bar>a\<bar> div \<bar>b\<bar>)"

definition rem :: "int \<Rightarrow> int \<Rightarrow> int" where
  "rem a b = a - b * quo a b"

text \<open>
  \<^verbatim>\<open>d.Seconds()\<close> is computed in \<^verbatim>\<open>float64\<close>:
  \<^verbatim>\<open>
  func (d Duration) Seconds() float64 {
      sec := d / Second
      nsec := d % Second
      return float64(sec) + float64(nsec)/1e9
  }
  \<close>
  A finite \<^verbatim>\<open>float64\<close> is a rational number, and every conversion and operation
  returns the exact result rounded to the nearest number with a 53-bit significand, a tie
  going to the even significand. \<open>float64\<close> is that rounding, for the magnitudes that
  occur here (from \<open>10\<^sup>-\<^sup>9\<close> to \<open>10\<^sup>1\<^sup>0\<close>, far from overflow and from the subnormal
  numbers). \<open>ilog2 x\<close> is the exponent \<open>e\<close> with \<open>2\<^sup>e \<le> x < 2\<^sup>e\<^sup>+\<^sup>1\<close>, for \<open>x > 0\<close>.
\<close>

definition roundHalfEven :: "rat \<Rightarrow> int" where
  "roundHalfEven q =
     (let n = \<lfloor>q\<rfloor>; r = q - of_int n
      in if r < 1 / 2 then n
         else if 1 / 2 < r then n + 1
         else if even n then n else n + 1)"

definition ilog2 :: "rat \<Rightarrow> int" where
  "ilog2 x = (if 1 \<le> x then bitlen \<lfloor>x\<rfloor> - 1 else - bitlen (\<lceil>1 / x\<rceil> - 1))"

definition float64 :: "rat \<Rightarrow> rat" where
  "float64 x =
     (if x = 0 then 0
      else let ulp = 2 powi (ilog2 \<bar>x\<bar> - 52)
           in sgn x * of_int (roundHalfEven (\<bar>x\<bar> / ulp)) * ulp)"

definition Seconds :: "Duration \<Rightarrow> rat" where
  "Seconds d =
     (let sec = quo d Second; nsec = rem d Second
      in float64 (float64 (of_int sec) + float64 (float64 (of_int nsec) / float64 1000000000)))"

text \<open>The conversion \<^verbatim>\<open>int(f)\<close> drops the fraction.\<close>

definition toInt :: "rat \<Rightarrow> int" where
  "toInt f = (if 0 \<le> f then \<lfloor>f\<rfloor> else \<lceil>f\<rceil>)"

text \<open>The verb \<^verbatim>\<open>%d\<close> of \<^verbatim>\<open>fmt.Sprintf\<close>: the decimal digits, after a minus sign if negative.\<close>

function showNat :: "nat \<Rightarrow> string" where
  "showNat n =
     (if n < 10 then [''0123456789'' ! n]
      else showNat (n div 10) @ [''0123456789'' ! (n mod 10)])"
  by pat_completeness auto
termination
  by (relation "measure id") auto

declare showNat.simps [simp del]

definition showInt :: "int \<Rightarrow> string" where
  "showInt i = (if i < 0 then CHR ''-'' # showNat (nat (- i)) else showNat (nat i))"

text \<open>
  \<^verbatim>\<open>fmt.Sprintf("public, max-age=%d", int(d.Seconds()))\<close>
\<close>

definition cacheControlOf :: "Duration \<Rightarrow> string" where
  "cacheControlOf d = ''public, max-age='' @ showInt (toInt (Seconds d))"

subsection \<open>Pages, renderers and response generators\<close>

text \<open>
  Modelled from the spec: the type \<^verbatim>\<open>Page\<close> is declared outside the two files. It has the
  fields that \<^verbatim>\<open>handler.go\<close> reads (\<^verbatim>\<open>Name\<close>, \<^verbatim>\<open>Template\<close>, \<^verbatim>\<open>Layout\<close>,
  \<^verbatim>\<open>CacheTTL\<close>, \<^verbatim>\<open>BackendURLPattern\<close>, \<^verbatim>\<open>IsArray\<close>) and the fixed payload that the
  specification gives a page that has no backend. A page without a layout or without a
  backend has the empty string there.
\<close>

record 'd Page =
  Name :: string
  Template :: string
  Layout :: string
  CacheTTL :: string
  BackendURLPattern :: string
  IsArray :: bool
  FixedPayload :: 'd

text \<open>
  A \<^verbatim>\<open>Renderer\<close> has the method \<^verbatim>\<open>Render(w io.Writer, v interface{}) error\<close>: from the
  data, the bytes it writes and the error it returns. A \<^verbatim>\<open>ResponseGenerator\<close> is a
  function from the request context to \<^verbatim>\<open>(data, error)\<close>.
\<close>

type_synonym 'd Renderer = "'d \<Rightarrow> string \<times> error option"

type_synonym ('q, 'd) ResponseGenerator = "'q \<Rightarrow> error + 'd"

datatype Decoder = JSONDecoder | JSONArrayDecoder

text \<open>
  What \<^verbatim>\<open>handler.go\<close> takes from elsewhere: \<^verbatim>\<open>time.ParseDuration\<close>, the renderer
  \<^verbatim>\<open>EmptyRenderer\<close>, the generator \<^verbatim>\<open>NoopResponse\<close>, the \<^verbatim>\<open>nil\<close> payload of the
  zero \<^verbatim>\<open>Page{}\<close>, \<^verbatim>\<open>CachedClient\<close> (\<open>'k\<close> is a client) and the method
  \<^verbatim>\<open>ResponseGenerator\<close> of a \<^verbatim>\<open>DynamicResponseGenerator{page, client, decoder}\<close>.
\<close>

record ('q, 'd, 'k) Imports =
  ParseDuration :: "string \<Rightarrow> error + Duration"
  EmptyRenderer :: "'d Renderer"
  NoopResponse :: "('q, 'd) ResponseGenerator"
  NilPayload :: 'd
  CachedClient :: "string \<Rightarrow> 'k"
  DynamicResponseGenerator :: "'d Page \<Rightarrow> 'k \<Rightarrow> Decoder \<Rightarrow> ('q, 'd) ResponseGenerator"

text \<open>
  Modelled from the spec: the method \<^verbatim>\<open>ResponseGenerator\<close> of
  \<^verbatim>\<open>StaticResponseGenerator{page}\<close> is declared outside the two files. The specification:
  it always succeeds and returns the Page's embedded fixed payload verbatim, ignoring the
  request.
\<close>

definition StaticResponseGenerator :: "'d Page \<Rightarrow> ('q, 'd) ResponseGenerator" where
  "StaticResponseGenerator page c = Inr (FixedPayload page)"

record ('q, 'd) HandlerConfig =
  Page :: "'d Page"
  Renderer :: "'d Renderer"
  ResponseGenerator :: "('q, 'd) ResponseGenerator"
  CacheControl :: string

definition DefaultHandlerConfig :: "('q, 'd, 'k) Imports \<Rightarrow> ('q, 'd) HandlerConfig" where
  "DefaultHandlerConfig env =
     \<lparr>Page = \<lparr>Name = '''', Template = '''', Layout = '''', CacheTTL = '''',
               BackendURLPattern = '''', IsArray = False, FixedPayload = NilPayload env\<rparr>,
      Renderer = EmptyRenderer env,
      ResponseGenerator = NoopResponse env,
      CacheControl = ''public, max-age=3600''\<rparr>"

definition NewHandlerConfig :: "('q, 'd, 'k) Imports \<Rightarrow> 'd Page \<Rightarrow> ('q, 'd) HandlerConfig" where
  "NewHandlerConfig env page =
     (let d = (case ParseDuration env (CacheTTL page) of Inl err \<Rightarrow> Hour | Inr d \<Rightarrow> d);
          cacheTTL = cacheControlOf d
      in if BackendURLPattern page = '''' then
           \<lparr>Page = page,
            Renderer = Renderer (DefaultHandlerConfig env),
            ResponseGenerator = StaticResponseGenerator page,
            CacheControl = cacheTTL\<rparr>
         else
           let decoder = (if IsArray page then JSONArrayDecoder else JSONDecoder)
           in \<lparr>Page = page,
               Renderer = Renderer (DefaultHandlerConfig env),
               ResponseGenerator =
                 DynamicResponseGenerator env page (CachedClient env (BackendURLPattern page)) decoder,
               CacheControl = cacheTTL\<rparr>)"

subsection \<open>The handler and its subscription loop (handler.go, lines 76 to 116)\<close>

text \<open>
  A channel is known by its identity. \<^verbatim>\<open>Subscription\<close> is declared outside the two files;
  \<^verbatim>\<open>updateRenderer\<close> builds one from the topic and the handler's own channel, in that
  order.
\<close>

type_synonym chan = nat

record Subscription =
  Topic :: string
  DeliveryChannel :: chan

text \<open>
  \<^verbatim>\<open>Handler\<close> has the four fields of a \<^verbatim>\<open>HandlerConfig\<close> and the two channels
  \<^verbatim>\<open>Input\<close> and \<^verbatim>\<open>Subscribe\<close>. \<^verbatim>\<open>NewHandler\<close> copies the four fields, makes the channel
  \<^verbatim>\<open>Input\<close> (given here as \<open>input\<close>, the channel that \<^verbatim>\<open>make(chan Renderer)\<close> returns)
  and starts \<^verbatim>\<open>updateRenderer\<close> in a goroutine of its own before it returns.
\<close>

record ('q, 'd) Handler = "('q, 'd) HandlerConfig" +
  Input :: chan
  Subscribe :: chan

definition NewHandler :: "('q, 'd) HandlerConfig \<Rightarrow> chan \<Rightarrow> chan \<Rightarrow> ('q, 'd) Handler" where
  "NewHandler cfg subscriptionChan input =
     \<lparr>Page = Page cfg,
      Renderer = Renderer cfg,
      ResponseGenerator = ResponseGenerator cfg,
      CacheControl = CacheControl cfg,
      Input = input,
      Subscribe = subscriptionChan\<rparr>"

text \<open>
  Lines 108 to 111 of \<^verbatim>\<open>updateRenderer\<close>:
  \<^verbatim>\<open>
  topic := h.Page.Template
  if h.Page.Layout != "" {
      topic = fmt.Sprintf("%s-:-%s", h.Page.Layout, h.Page.Template)
  }
  \<close>
\<close>

definition topic :: "'d Page \<Rightarrow> string" where
  "topic page =
     (if Layout page \<noteq> '''' then Layout page @ ''-:-'' @ Template page
      else Template page)"

text \<open>
  The loop of lines 112 to 115 never ends, and both of its statements wait for another
  goroutine:
  \<^verbatim>\<open>
  for {
      h.Subscribe <- Subscription{topic, h.Input}
      h.Renderer = <-h.Input
  }
  \<close>
  It is a transition system. The state is the handler, the local variable \<^verbatim>\<open>topic\<close> and
  the statement the goroutine is at. Both channels are unbuffered, so a send and its
  receive are one event: \<open>Send ch s\<close>, the goroutine's send of \<open>s\<close> on \<open>ch\<close> is
  taken; \<open>Receive ch r\<close>, the renderer \<open>r\<close> is handed to the goroutine on \<open>ch\<close>.
  The third event, \<open>Serve c\<close>, is a request \<open>c\<close> that \<^verbatim>\<open>HandlerFunc\<close> serves; it
  can happen in every state, as nothing in \<^verbatim>\<open>HandlerFunc\<close> waits for the loop, and it
  changes nothing in the loop. This system takes the second statement, the receive and
  the store into \<^verbatim>\<open>h.Renderer\<close>, as one step: the two follow each other in the one
  goroutine of the loop, which is all that matters for what the loop sends and receives.
  What a request reads from \<^verbatim>\<open>h.Renderer\<close> is not read off this system but off the
  finer one below.
\<close>

datatype location = AtSend | AtReceive

record ('q, 'd) Running =
  handler :: "('q, 'd) Handler"
  topicVar :: string
  pc :: location

datatype ('q, 'd) event =
    Send chan Subscription
  | Receive chan "'d Renderer"
  | Serve 'q

definition updateRenderer :: "('q, 'd) Handler \<Rightarrow> ('q, 'd) Running" where
  "updateRenderer h = \<lparr>handler = h, topicVar = topic (Page h), pc = AtSend\<rparr>"

fun step :: "('q, 'd) Running \<Rightarrow> ('q, 'd) event \<Rightarrow> ('q, 'd) Running option" where
  "step s (Send ch sub) =
     (if pc s = AtSend \<and> ch = Subscribe (handler s)
         \<and> sub = \<lparr>Topic = topicVar s, DeliveryChannel = Input (handler s)\<rparr>
      then Some (s\<lparr>pc := AtReceive\<rparr>) else None)"
| "step s (Receive ch r) =
     (if pc s = AtReceive \<and> ch = Input (handler s)
      then Some (s\<lparr>handler := (handler s)\<lparr>Renderer := r\<rparr>, pc := AtSend\<rparr>) else None)"
| "step s (Serve c) = Some s"

fun run :: "('q, 'd) Running \<Rightarrow> ('q, 'd) event list \<Rightarrow> ('q, 'd) Running option" where
  "run s [] = Some s"
| "run s (e # es) = (case step s e of None \<Rightarrow> None | Some s' \<Rightarrow> run s' es)"

text \<open>The subscriptions sent and the renderers delivered in a trace, in order.\<close>

fun sent :: "('q, 'd) event list \<Rightarrow> (chan \<times> Subscription) list" where
  "sent [] = []"
| "sent (Send ch sub # es) = (ch, sub) # sent es"
| "sent (e # es) = sent es"

fun delivered :: "('q, 'd) event list \<Rightarrow> 'd Renderer list" where
  "delivered [] = []"
| "delivered (Receive ch r # es) = r # delivered es"
| "delivered (e # es) = delivered es"










subsection \<open>Serving a request (handler.go, lines 118 to 137)\<close>

text \<open>
  \<^verbatim>\<open>HandlerFunc\<close> acts on the gin context and on the two capabilities of the handler. It
  is modelled by the calls it makes, in order: \<open>SetName\<close>, \<open>StartSegment\<close> and
  \<open>EndSegment\<close> are the New Relic calls, made when the package variable
  \<^verbatim>\<open>newrelicApp\<close> is not \<^verbatim>\<open>nil\<close> (the deferred \<^verbatim>\<open>End\<close> runs when the function returns);
  \<open>Generate\<close> is the call of \<^verbatim>\<open>h.ResponseGenerator(c)\<close>; \<open>Header k v\<close> is
  \<^verbatim>\<open>c.Header(k, v)\<close>; \<open>Render v out\<close> is the call of \<^verbatim>\<open>h.Renderer.Render(c.Writer, v)\<close>,
  which wrote \<open>out\<close>; \<open>AbortWithError code err\<close> is \<^verbatim>\<open>c.AbortWithError(code, err)\<close>.
\<close>

datatype 'd call =
    SetName string
  | Generate
  | AbortWithError nat error
  | StartSegment string
  | Header string string
  | Render 'd string
  | EndSegment

definition StatusInternalServerError :: nat where
  "StatusInternalServerError = 500"

definition HandlerFunc :: "bool \<Rightarrow> ('q, 'd) Handler \<Rightarrow> 'q \<Rightarrow> 'd call list" where
  "HandlerFunc newrelicApp h c =
     (if newrelicApp then [SetName (Name (Page h))] else []) @
     Generate #
     (case ResponseGenerator h c of
        Inl err \<Rightarrow> [AbortWithError StatusInternalServerError err]
      | Inr result \<Rightarrow>
          (if newrelicApp then [StartSegment ''Render''] else []) @
          Header ''Cache-Control'' (CacheControl h) #
          (case Renderer h result of
             (out, Some err) \<Rightarrow> [Render result out, AbortWithError StatusInternalServerError err]
           | (out, None) \<Rightarrow> [Render result out]) @
          (if newrelicApp then [EndSegment] else []))"

text \<open>The calls of one kind in a list of calls.\<close>

fun isHeader :: "'d call \<Rightarrow> bool" where
  "isHeader (Header k v) = True"
| "isHeader other = False"

fun isRender :: "'d call \<Rightarrow> bool" where
  "isRender (Render v out) = True"
| "isRender other = False"

fun isAbort :: "'d call \<Rightarrow> bool" where
  "isAbort (AbortWithError code err) = True"
| "isAbort other = False"

text \<open>What a step leaves as it is: everything but the renderer and the location.\<close>

definition sameLoop :: "('q, 'd) Running \<Rightarrow> ('q, 'd) Running \<Rightarrow> bool" where
  "sameLoop s t \<longleftrightarrow>
     Page (handler t) = Page (handler s) \<and> Input (handler t) = Input (handler s)
     \<and> Subscribe (handler t) = Subscribe (handler s)
     \<and> ResponseGenerator (handler t) = ResponseGenerator (handler s)
     \<and> CacheControl (handler t) = CacheControl (handler s)
     \<and> topicVar t = topicVar s"

subsection \<open>Values to run the handler on\<close>

text \<open>
  Stand-ins for what is outside the two files, with requests and data as strings: a
  renderer that writes a fixed body before the data, one that fails, one that writes
  nothing; a generator that fails and one that passes the request on as the data; the
  durations that \<^verbatim>\<open>time.ParseDuration\<close> returns for three strings, any other string
  being refused here.
\<close>

definition textRenderer :: "string \<Rightarrow> string Renderer" where
  "textRenderer body v = (body @ v, None)"

definition failingRenderer :: "error \<Rightarrow> string Renderer" where
  "failingRenderer e v = ('''', Some e)"

definition silentRenderer :: "string Renderer" where
  "silentRenderer v = ('''', None)"

definition failingGenerator :: "error \<Rightarrow> (string, string) ResponseGenerator" where
  "failingGenerator e c = Inl e"

definition echoGenerator :: "(string, string) ResponseGenerator" where
  "echoGenerator c = Inr c"

definition knownDurations :: "string \<Rightarrow> error + Duration" where
  "knownDurations s =
     (case map_of [(''1h'', Hour), (''90s'', 90 * Second),
                   (''16777216s999999999ns'', 16777216 * Second + 999999999)] s of
        None \<Rightarrow> Inl (''time: invalid duration '' @ s)
      | Some d \<Rightarrow> Inr d)"

definition urlClient :: "string \<Rightarrow> string" where
  "urlClient url = url"

definition backendDown :: "string Page \<Rightarrow> string \<Rightarrow> Decoder \<Rightarrow> (string, string) ResponseGenerator" where
  "backendDown page client decoder c = Inl (''Get '' @ client @ '': connection refused'')"

definition siteImports :: "(string, string, string) Imports" where
  "siteImports =
     \<lparr>ParseDuration = knownDurations,
      EmptyRenderer = silentRenderer,
      NoopResponse = echoGenerator,
      NilPayload = '''',
      CachedClient = urlClient,
      DynamicResponseGenerator = backendDown\<rparr>"

definition homePage :: "string Page" where
  "homePage =
     \<lparr>Name = ''home'', Template = ''home'', Layout = ''base'', CacheTTL = ''90s'',
      BackendURLPattern = '''', IsArray = False, FixedPayload = ''title=api2html''\<rparr>"

definition homeConfig :: "(string, string) HandlerConfig" where
  "homeConfig =
     \<lparr>Page = homePage, Renderer = silentRenderer,
      ResponseGenerator = StaticResponseGenerator homePage,
      CacheControl = ''public, max-age=90''\<rparr>"

definition homeSubscription :: Subscription where
  "homeSubscription = \<lparr>Topic = ''base-:-home'', DeliveryChannel = 8\<rparr>"

text \<open>
  A trace of the handler made with the registration channel 7 and the private channel 8:
  it registers, serves a request, is delivered a renderer, registers again, is delivered a
  second renderer and serves another request.
\<close>

definition homeTrace :: "(string, string) event list" where
  "homeTrace =
     [Send 7 homeSubscription, Serve ''/'',
      Receive 8 (textRenderer ''<p>v1</p>''),
      Send 7 homeSubscription,
      Receive 8 (textRenderer ''<p>v2</p>''), Serve ''/'']"


section \<open>Properties\<close>

subsection \<open>The partial provider\<close>

lemma Get_static:
  assumes "statics sp name = (data, None)" and "data \<noteq> ''''"
  shows "Get sp name = (data, None)"
  using assms by (simp add: Get_def)

lemma Get_dynamic:
  assumes "snd (statics sp name) \<noteq> None \<or> fst (statics sp name) = ''''"
  shows "Get sp name = dynamc sp name"
  using assms by (cases "statics sp name") (auto simp: Get_def)

text \<open>
  Claim C1. For every partial name, \<open>Get\<close> returns the static pool's text whenever the
  static pool returns it without error and the text is not empty, whatever the dynamic
  pool holds under that name; in every other case (the static lookup fails, or yields the
  empty text, which is also what an absent entry yields) it returns the pair of text and
  error of the dynamic pool unchanged. In particular, with the static pool
  \<open>{x: ""}\<close> and the dynamic pool \<open>{x: "hello"}\<close>, \<open>Get "x"\<close> returns \<open>"hello"\<close>.
\<close>

theorem Get_resolution_order:
  "(snd (statics sp name) = None \<and> fst (statics sp name) \<noteq> ''''
      \<longrightarrow> Get sp name = (fst (statics sp name), None))
   \<and> (\<not> (snd (statics sp name) = None \<and> fst (statics sp name) \<noteq> '''')
      \<longrightarrow> Get sp name = dynamc sp name)
   \<and> Get \<lparr>statics = poolProvider [(''x'', '''')],
           dynamc = poolProvider [(''x'', ''hello'')]\<rparr> ''x'' = (''hello'', None)"
proof (intro conjI impI)
  assume "snd (statics sp name) = None \<and> fst (statics sp name) \<noteq> ''''"
  then show "Get sp name = (fst (statics sp name), None)"
    using Get_static [of sp name "fst (statics sp name)"] by (simp add: prod_eq_iff)
next
  assume "\<not> (snd (statics sp name) = None \<and> fst (statics sp name) \<noteq> '''')"
  then show "Get sp name = dynamc sp name"
    using Get_dynamic [of sp name] by blast
next
  show "Get \<lparr>statics = poolProvider [(''x'', '''')],
             dynamc = poolProvider [(''x'', ''hello'')]\<rparr> ''x'' = (''hello'', None)"
    by (simp add: Get_def poolProvider_def)
qed

theorem Get_resolution_order_witness:
  "Get \<lparr>statics = poolProvider [(''api2html/debug'', ''<pre>{{.}}</pre>'')],
        dynamc = poolProvider [(''api2html/debug'', ''from disk'')]\<rparr> ''api2html/debug''
     = (''<pre>{{.}}</pre>'', None)
   \<and> Get \<lparr>statics = failingProvider ''static pool unavailable'',
          dynamc = failingProvider ''partial not found''\<rparr> ''footer''
     = ('''', Some ''partial not found'')"
proof
  let ?sp = "\<lparr>statics = poolProvider [(''api2html/debug'', ''<pre>{{.}}</pre>'')],
        dynamc = poolProvider [(''api2html/debug'', ''from disk'')]\<rparr>"
  have s: "statics ?sp ''api2html/debug'' = (''<pre>{{.}}</pre>'', None)"
    by (simp add: poolProvider_def)
  show "Get ?sp ''api2html/debug'' = (''<pre>{{.}}</pre>'', None)"
    using Get_resolution_order [of ?sp "''api2html/debug''"] unfolding s by simp
next
  let ?sp = "\<lparr>statics = failingProvider ''static pool unavailable'',
          dynamc = failingProvider ''partial not found''\<rparr>"
  have s: "statics ?sp ''footer'' = ('''', Some ''static pool unavailable'')"
    by (simp add: failingProvider_def)
  have d: "dynamc ?sp ''footer'' = ('''', Some ''partial not found'')"
    by (simp add: failingProvider_def)
  show "Get ?sp ''footer'' = ('''', Some ''partial not found'')"
    using Get_resolution_order [of ?sp "''footer''"] unfolding s d by simp
qed

text \<open>
  Claim C10. An error of the static pool never reaches the caller: whenever the static
  lookup fails or yields the empty text, the result, text and error, is exactly the
  dynamic pool's, and every error that \<open>Get\<close> returns is the error the dynamic pool
  returned for that name.
\<close>

theorem Get_static_error_not_propagated:
  "(snd (statics sp name) \<noteq> None \<or> fst (statics sp name) = ''''
      \<longrightarrow> Get sp name = dynamc sp name)
   \<and> (snd (Get sp name) = Some e \<longrightarrow> Get sp name = dynamc sp name \<and> snd (dynamc sp name) = Some e)"
proof -
  have fallthrough: "Get sp name = dynamc sp name"
    if "snd (statics sp name) \<noteq> None \<or> fst (statics sp name) = ''''"
    using that by (rule Get_dynamic)
  have "Get sp name = dynamc sp name \<and> snd (dynamc sp name) = Some e"
    if err: "snd (Get sp name) = Some e"
  proof -
    have "snd (statics sp name) \<noteq> None \<or> fst (statics sp name) = ''''"
    proof (rule ccontr)
      assume "\<not> ?thesis"
      then have "Get sp name = (fst (statics sp name), None)"
        using Get_static [of sp name "fst (statics sp name)"] by (simp add: prod_eq_iff)
      with err show False by simp
    qed
    then have "Get sp name = dynamc sp name"
      by (rule fallthrough)
    with err show ?thesis by simp
  qed
  with fallthrough show ?thesis by blast
qed

theorem Get_static_error_not_propagated_witness:
  "Get \<lparr>statics = failingProvider ''static pool unavailable'',
        dynamc = poolProvider [(''footer'', ''<footer/>'')]\<rparr> ''footer'' = (''<footer/>'', None)
   \<and> snd (dynamc \<lparr>statics = poolProvider [(''footer'', '''')],
                  dynamc = failingProvider ''partial not found''\<rparr> ''footer'')
     = Some ''partial not found''"
proof
  let ?sp = "\<lparr>statics = failingProvider ''static pool unavailable'',
        dynamc = poolProvider [(''footer'', ''<footer/>'')]\<rparr>"
  have s: "statics ?sp ''footer'' = ('''', Some ''static pool unavailable'')"
    by (simp add: failingProvider_def)
  have d: "dynamc ?sp ''footer'' = (''<footer/>'', None)"
    by (simp add: poolProvider_def)
  show "Get ?sp ''footer'' = (''<footer/>'', None)"
    using Get_static_error_not_propagated [of ?sp "''footer''"] unfolding s d by simp
next
  let ?sp = "\<lparr>statics = poolProvider [(''footer'', '''')],
                  dynamc = failingProvider ''partial not found''\<rparr>"
  have g: "snd (Get ?sp ''footer'') = Some ''partial not found''"
    by (simp add: Get_def poolProvider_def failingProvider_def)
  show "snd (dynamc ?sp ''footer'') = Some ''partial not found''"
    using Get_static_error_not_propagated [of ?sp "''footer''" "''partial not found''"] g
    by blast
qed

subsection \<open>Compiling the declared templates\<close>

lemma compileSection_step:
  "compileSection env ((name, path) # rest) result =
     (case compileFile env path of
        Inl err \<Rightarrow> (result, Some err)
      | Inr renderer \<Rightarrow> compileSection env rest (result(name \<mapsto> renderer)))"
  by (simp add: compileFile_def split: sum.splits)

declare compileSection.simps(2) [simp del]

lemma compileSection_append:
  "compileSection env (xs @ ys) result =
     (case compileSection env xs result of
        (result', Some err) \<Rightarrow> (result', Some err)
      | (result', None) \<Rightarrow> compileSection env ys result')"
proof (induction xs arbitrary: result)
  case Nil
  show ?case by simp
next
  case (Cons entry xs)
  obtain name path where entry: "entry = (name, path)" by (cases entry)
  show ?case
  proof (cases "compileFile env path")
    case (Inl err)
    then show ?thesis
      by (simp add: entry compileSection_step)
  next
    case (Inr renderer)
    then show ?thesis
      by (simp add: entry compileSection_step Cons.IH del: fun_upd_apply)
  qed
qed

lemma NewMustacheRendererMap_flat:
  "NewMustacheRendererMap env cfg = compileSection env (Templates cfg @ Layouts cfg) Map.empty"
  by (simp add: NewMustacheRendererMap_def compileSection_append split: prod.splits option.splits)

lemma compileSection_all:
  assumes "list_all (\<lambda>entry. compiles env (snd entry)) entries"
  shows "snd (compileSection env entries result) = None
    \<and> dom (fst (compileSection env entries result)) = dom result \<union> fst ` set entries"
  using assms
proof (induction entries arbitrary: result)
  case Nil
  show ?case by simp
next
  case (Cons entry entries)
  obtain name path where entry: "entry = (name, path)" by (cases entry)
  from Cons.prems obtain renderer where r: "compileFile env path = Inr renderer"
    by (cases "compileFile env path") (auto simp: entry compiles_def)
  from Cons.prems have rest: "list_all (\<lambda>entry. compiles env (snd entry)) entries"
    by simp
  have "compileSection env (entry # entries) result
      = compileSection env entries (result(name \<mapsto> renderer))"
    by (simp add: entry compileSection_step r)
  with Cons.IH [OF rest, of "result(name \<mapsto> renderer)"] show ?case
    by (auto simp: entry simp del: fun_upd_apply)
qed

lemma compileSection_values:
  assumes "fst (compileSection env entries result) name = Some renderer"
  shows "result name = Some renderer
    \<or> (\<exists>path. (name, path) \<in> set entries \<and> compileFile env path = Inr renderer)"
  using assms
proof (induction entries arbitrary: result)
  case Nil
  then show ?case by simp
next
  case (Cons entry entries)
  obtain n p where entry: "entry = (n, p)" by (cases entry)
  show ?case
  proof (cases "compileFile env p")
    case (Inl err)
    with Cons.prems show ?thesis
      by (simp add: entry compileSection_step)
  next
    case (Inr r)
    with Cons.prems have "fst (compileSection env entries (result(n \<mapsto> r))) name = Some renderer"
      by (simp add: entry compileSection_step)
    from Cons.IH [OF this] Inr show ?thesis
      by (auto simp: entry split: if_splits)
  qed
qed

lemma compileSection_stops:
  assumes "list_all (\<lambda>entry. compiles env (snd entry)) pre"
    and "compileFile env path = Inl err"
  shows "compileSection env (pre @ (name, path) # post) result
    = (fst (compileSection env pre result), Some err)"
proof -
  from compileSection_all [OF assms(1), of result]
  have "snd (compileSection env pre result) = None" by simp
  then obtain result' where pre: "compileSection env pre result = (result', None)"
    by (cases "compileSection env pre result") simp
  show ?thesis
    by (simp add: compileSection_append pre compileSection_step assms(2))
qed

lemmas disk_simps = compileFile_def NewMustacheRenderer_def newMustacheTemplate_def
  diskFiles_def diskOpen_def readText_def parseClosedTags_def siteDisk_def

lemma compileFile_home:
  "compileFile (diskFiles siteDisk) ''home.mustache'' = Inr \<lparr>tmpl = ''<h1>{{title}}</h1>''\<rparr>"
  by (simp add: disk_simps)

lemma compileFile_base:
  "compileFile (diskFiles siteDisk) ''base.mustache'' = Inr \<lparr>tmpl = ''<html>{{{content}}}</html>''\<rparr>"
  by (simp add: disk_simps)

lemma compileFile_broken:
  "compileFile (diskFiles siteDisk) ''broken.mustache'' = Inl ''unmatched open tag''"
  by (simp add: disk_simps)

text \<open>
  Claim C2, as the code has it. \<^verbatim>\<open>NewMustacheRendererMap\<close> visits the templates and then
  the layouts; the first entry that fails to open or to parse ends the whole call, which
  returns that error and the map of the renderers compiled before it, so that the names
  in the map are exactly those visited earlier and nothing after the failure is compiled.
  When every entry compiles, there is no error and the map holds every declared name.
  Whatever the map holds under a name is the renderer compiled from a path declared
  under that name.
\<close>

theorem NewMustacheRendererMap_stops_at_first_failure:
  "(Templates cfg @ Layouts cfg = pre @ (name, path) # post
      \<and> list_all (\<lambda>entry. compiles env (snd entry)) pre
      \<and> compileFile env path = Inl err
    \<longrightarrow> snd (NewMustacheRendererMap env cfg) = Some err
      \<and> dom (fst (NewMustacheRendererMap env cfg)) = fst ` set pre)
   \<and> (list_all (\<lambda>entry. compiles env (snd entry)) (Templates cfg @ Layouts cfg)
    \<longrightarrow> snd (NewMustacheRendererMap env cfg) = None
      \<and> dom (fst (NewMustacheRendererMap env cfg)) = fst ` set (Templates cfg @ Layouts cfg))
   \<and> (fst (NewMustacheRendererMap env cfg) declared = Some renderer
    \<longrightarrow> (\<exists>file. (declared, file) \<in> set (Templates cfg @ Layouts cfg)
          \<and> compileFile env file = Inr renderer))"
proof -
  let ?entries = "Templates cfg @ Layouts cfg"
  have stops: "snd (NewMustacheRendererMap env cfg) = Some err
      \<and> dom (fst (NewMustacheRendererMap env cfg)) = fst ` set pre"
    if "?entries = pre @ (name, path) # post"
      and "list_all (\<lambda>entry. compiles env (snd entry)) pre"
      and "compileFile env path = Inl err"
  proof -
    have "NewMustacheRendererMap env cfg
        = (fst (compileSection env pre Map.empty), Some err)"
      unfolding NewMustacheRendererMap_flat that(1)
      by (rule compileSection_stops [OF that(2) that(3)])
    moreover have "dom (fst (compileSection env pre Map.empty)) = fst ` set pre"
      using compileSection_all [OF that(2), of Map.empty] by simp
    ultimately show ?thesis by simp
  qed
  have all: "snd (NewMustacheRendererMap env cfg) = None
      \<and> dom (fst (NewMustacheRendererMap env cfg)) = fst ` set ?entries"
    if "list_all (\<lambda>entry. compiles env (snd entry)) ?entries"
    unfolding NewMustacheRendererMap_flat
    using compileSection_all [OF that, of Map.empty] by simp
  have origin: "\<exists>file. (declared, file) \<in> set ?entries \<and> compileFile env file = Inr renderer"
    if "fst (NewMustacheRendererMap env cfg) declared = Some renderer"
    using compileSection_values [of env ?entries Map.empty declared renderer] that
    unfolding NewMustacheRendererMap_flat by simp
  from stops all origin show ?thesis by blast
qed

theorem NewMustacheRendererMap_stops_at_first_failure_witness:
  "snd (NewMustacheRendererMap (diskFiles siteDisk)
          \<lparr>Templates = [(''home'', ''home.mustache''), (''broken'', ''broken.mustache'')],
           Layouts = [(''base'', ''base.mustache'')]\<rparr>) = Some ''unmatched open tag''
   \<and> dom (fst (NewMustacheRendererMap (diskFiles siteDisk)
          \<lparr>Templates = [(''home'', ''home.mustache''), (''broken'', ''broken.mustache'')],
           Layouts = [(''base'', ''base.mustache'')]\<rparr>)) = {''home''}
   \<and> snd (NewMustacheRendererMap (diskFiles siteDisk)
          \<lparr>Templates = [(''home'', ''home.mustache'')],
           Layouts = [(''base'', ''base.mustache'')]\<rparr>) = None
   \<and> dom (fst (NewMustacheRendererMap (diskFiles siteDisk)
          \<lparr>Templates = [(''home'', ''home.mustache'')],
           Layouts = [(''base'', ''base.mustache'')]\<rparr>)) = {''home'', ''base''}"
proof -
  let ?env = "diskFiles siteDisk"
  let ?bad = "\<lparr>Templates = [(''home'', ''home.mustache''), (''broken'', ''broken.mustache'')],
           Layouts = [(''base'', ''base.mustache'')]\<rparr>"
  let ?good = "\<lparr>Templates = [(''home'', ''home.mustache'')],
           Layouts = [(''base'', ''base.mustache'')]\<rparr>"
  have entries: "Templates ?bad @ Layouts ?bad
      = [(''home'', ''home.mustache'')] @ (''broken'', ''broken.mustache'') # [(''base'', ''base.mustache'')]"
    by simp
  have pre: "list_all (\<lambda>entry. compiles ?env (snd entry)) [(''home'', ''home.mustache'')]"
    by (simp add: compiles_def compileFile_home)
  have good: "list_all (\<lambda>entry. compiles ?env (snd entry)) (Templates ?good @ Layouts ?good)"
    by (simp add: compiles_def compileFile_home compileFile_base)
  from NewMustacheRendererMap_stops_at_first_failure
    [of ?bad "[(''home'', ''home.mustache'')]" "''broken''" "''broken.mustache''"
      "[(''base'', ''base.mustache'')]" ?env "''unmatched open tag''"]
    entries pre compileFile_broken
  have "snd (NewMustacheRendererMap ?env ?bad) = Some ''unmatched open tag''
      \<and> dom (fst (NewMustacheRendererMap ?env ?bad)) = fst ` set [(''home'', ''home.mustache'')]"
    by blast
  moreover from NewMustacheRendererMap_stops_at_first_failure [of ?good _ _ _ _ ?env] good
  have "snd (NewMustacheRendererMap ?env ?good) = None
      \<and> dom (fst (NewMustacheRendererMap ?env ?good)) = fst ` set (Templates ?good @ Layouts ?good)"
    by blast
  ultimately show ?thesis by simp
qed

text \<open>
  Claim C2 as it is stated fails: the template \<open>broken\<close> does not parse, the layout
  \<open>base\<close> is unrelated to it and compiles on its own, and yet the call returns without
  \<open>base\<close> in the map.
\<close>

theorem NewMustacheRendererMap_failure_aborts_batch_counterexample:
  "compileFile (diskFiles siteDisk) ''base.mustache''
     = Inr \<lparr>tmpl = ''<html>{{{content}}}</html>''\<rparr>
   \<and> fst (NewMustacheRendererMap (diskFiles siteDisk)
        \<lparr>Templates = [(''broken'', ''broken.mustache'')],
         Layouts = [(''base'', ''base.mustache'')]\<rparr>) ''base'' = None
   \<and> snd (NewMustacheRendererMap (diskFiles siteDisk)
        \<lparr>Templates = [(''broken'', ''broken.mustache'')],
         Layouts = [(''base'', ''base.mustache'')]\<rparr>) = Some ''unmatched open tag''"
proof (intro conjI)
  show "compileFile (diskFiles siteDisk) ''base.mustache''
     = Inr \<lparr>tmpl = ''<html>{{{content}}}</html>''\<rparr>"
    by (rule compileFile_base)
next
  have "compileSection (diskFiles siteDisk) [(''broken'', ''broken.mustache'')] Map.empty
      = (Map.empty, Some ''unmatched open tag'')"
    by (simp add: compileSection_step compileFile_broken)
  then have result: "NewMustacheRendererMap (diskFiles siteDisk)
        \<lparr>Templates = [(''broken'', ''broken.mustache'')],
         Layouts = [(''base'', ''base.mustache'')]\<rparr>
     = (Map.empty, Some ''unmatched open tag'')"
    by (simp add: NewMustacheRendererMap_def)
  show "fst (NewMustacheRendererMap (diskFiles siteDisk)
        \<lparr>Templates = [(''broken'', ''broken.mustache'')],
         Layouts = [(''base'', ''base.mustache'')]\<rparr>) ''base'' = None"
    by (simp add: result)
  show "snd (NewMustacheRendererMap (diskFiles siteDisk)
        \<lparr>Templates = [(''broken'', ''broken.mustache'')],
         Layouts = [(''base'', ''base.mustache'')]\<rparr>) = Some ''unmatched open tag''"
    by (simp add: result)
qed

subsection \<open>Rounding to \<^verbatim>\<open>float64\<close> and the seconds of a duration\<close>

lemma ilog2_bounds_ge1:
  fixes x :: rat
  assumes "1 \<le> x"
  shows "2 powi (ilog2 x) \<le> x \<and> x < 2 powi (ilog2 x + 1)"
proof -
  let ?n = "\<lfloor>x\<rfloor>"
  from assms have n: "0 < ?n" by simp
  from bitlen_bounds [OF n]
  have lo: "2 ^ nat (bitlen ?n - 1) \<le> ?n" and hi: "?n < 2 ^ nat (bitlen ?n)"
    by simp_all
  have k: "1 \<le> bitlen ?n"
    using n bitlen_eq_zero_iff [of ?n] bitlen_nonneg [of ?n] by linarith
  have e: "ilog2 x = bitlen ?n - 1"
    using assms by (simp add: ilog2_def)
  have "(2::rat) powi (bitlen ?n - 1) = 2 ^ nat (bitlen ?n - 1)"
    using k by (simp add: power_int_def)
  also have "\<dots> = of_int (2 ^ nat (bitlen ?n - 1))" by simp
  also have "\<dots> \<le> of_int ?n" using lo by (simp only: of_int_le_iff)
  also have "\<dots> \<le> x" by simp
  finally have 1: "2 powi (ilog2 x) \<le> x" by (simp add: e)
  have "?n + 1 \<le> 2 ^ nat (bitlen ?n)" using hi by simp
  then have "(of_int (?n + 1) :: rat) \<le> of_int (2 ^ nat (bitlen ?n))"
    by (simp only: of_int_le_iff)
  moreover have "x < of_int (?n + 1)" by linarith
  ultimately have "x < of_int (2 ^ nat (bitlen ?n))" by linarith
  also have "\<dots> = 2 ^ nat (bitlen ?n)" by simp
  also have "\<dots> = 2 powi (bitlen ?n)"
    using k by (simp add: power_int_def)
  finally have 2: "x < 2 powi (ilog2 x + 1)" by (simp add: e)
  from 1 2 show ?thesis ..
qed

lemma ilog2_bounds_lt1:
  fixes x :: rat
  assumes "0 < x" "x < 1"
  shows "2 powi (ilog2 x) \<le> x \<and> x < 2 powi (ilog2 x + 1)"
proof -
  let ?m = "\<lceil>1 / x\<rceil> - 1"
  from assms have inv: "1 < 1 / x" by simp
  then have "1 < \<lceil>1 / x\<rceil>" by (simp add: less_ceiling_iff)
  then have m: "0 < ?m" by simp
  from bitlen_bounds [OF m]
  have lo: "2 ^ nat (bitlen ?m - 1) \<le> ?m" and hi: "?m < 2 ^ nat (bitlen ?m)"
    by simp_all
  have k: "1 \<le> bitlen ?m"
    using m bitlen_eq_zero_iff [of ?m] bitlen_nonneg [of ?m] by linarith
  have e: "ilog2 x = - bitlen ?m"
    using assms by (simp add: ilog2_def)
  have p: "(0::rat) < 2 ^ nat (bitlen ?m)" by simp
  have "?m + 1 \<le> 2 ^ nat (bitlen ?m)" using hi by simp
  then have "(of_int (?m + 1) :: rat) \<le> of_int (2 ^ nat (bitlen ?m))"
    by (simp only: of_int_le_iff)
  moreover have "1 / x \<le> of_int \<lceil>1 / x\<rceil>" by (rule le_of_int_ceiling)
  moreover have "(of_int \<lceil>1 / x\<rceil> :: rat) = of_int (?m + 1)" by simp
  moreover have "(of_int (2 ^ nat (bitlen ?m)) :: rat) = 2 ^ nat (bitlen ?m)" by simp
  ultimately have "1 / x \<le> 2 ^ nat (bitlen ?m)" by (simp only:)
  then have "1 \<le> 2 ^ nat (bitlen ?m) * x"
    using assms(1) by (simp add: field_simps)
  then have "1 / 2 ^ nat (bitlen ?m) \<le> x"
    using p by (simp add: field_simps)
  moreover have "(2::rat) powi (- bitlen ?m) = 1 / 2 ^ nat (bitlen ?m)"
    using k by (simp add: power_int_def field_simps)
  ultimately have 1: "2 powi (ilog2 x) \<le> x" by (simp add: e)
  have "(of_int (2 ^ nat (bitlen ?m - 1)) :: rat) \<le> of_int ?m"
    using lo by (simp only: of_int_le_iff)
  moreover have "of_int ?m < 1 / x"
    using ceiling_correct [of "1 / x"] by simp
  ultimately have "2 ^ nat (bitlen ?m - 1) < 1 / x" by simp
  then have "2 ^ nat (bitlen ?m - 1) * x < 1"
    using assms(1) by (simp add: field_simps)
  then have "x < 1 / 2 ^ nat (bitlen ?m - 1)"
    by (simp add: field_simps)
  moreover have "(2::rat) powi (- bitlen ?m + 1) = 1 / 2 ^ nat (bitlen ?m - 1)"
  proof -
    have "- bitlen ?m + 1 = - (bitlen ?m - 1)" by simp
    then have "(2::rat) powi (- bitlen ?m + 1) = inverse (2 powi (bitlen ?m - 1))"
      by (simp only: power_int_minus)
    also have "\<dots> = 1 / 2 ^ nat (bitlen ?m - 1)"
      using k by (simp add: power_int_def field_simps)
    finally show ?thesis .
  qed
  ultimately have 2: "x < 2 powi (ilog2 x + 1)" by (simp add: e)
  from 1 2 show ?thesis ..
qed

lemma ilog2_bounds:
  fixes x :: rat
  assumes "0 < x"
  shows "2 powi (ilog2 x) \<le> x" and "x < 2 powi (ilog2 x + 1)"
  using assms ilog2_bounds_ge1 [of x] ilog2_bounds_lt1 [of x]
  by (cases "1 \<le> x"; simp)+

lemma ilog2_less:
  fixes x :: rat
  assumes "0 < x" "x < 2 powi e"
  shows "ilog2 x < e"
proof (rule ccontr)
  assume "\<not> ilog2 x < e"
  then have "e \<le> ilog2 x" by simp
  then have "(2::rat) powi e \<le> 2 powi (ilog2 x)"
    by (intro power_int_increasing) simp_all
  with ilog2_bounds(1) [OF assms(1)] assms(2) show False by simp
qed

lemma ilog2_ge:
  fixes x :: rat
  assumes "0 < x" "2 powi e \<le> x"
  shows "e \<le> ilog2 x"
proof (rule ccontr)
  assume "\<not> e \<le> ilog2 x"
  then have "ilog2 x + 1 \<le> e" by simp
  then have "(2::rat) powi (ilog2 x + 1) \<le> 2 powi e"
    by (intro power_int_increasing) simp_all
  with ilog2_bounds(2) [OF assms(1)] assms(2) show False by simp
qed

lemma ilog2_unique:
  fixes x :: rat
  assumes "2 powi e \<le> x" "x < 2 powi (e + 1)"
  shows "ilog2 x = e"
proof -
  have "(0::rat) < 2 powi e" by simp
  from this assms(1) have pos: "0 < x" by (rule less_le_trans)
  from ilog2_less [OF pos assms(2)] ilog2_ge [OF pos assms(1)] show ?thesis by simp
qed

lemma roundHalfEven_ge:
  assumes "of_int k \<le> q"
  shows "k \<le> roundHalfEven q"
proof -
  from assms have "k \<le> \<lfloor>q\<rfloor>" by (simp add: le_floor_iff)
  then show ?thesis by (simp add: roundHalfEven_def Let_def)
qed

lemma roundHalfEven_less:
  assumes "q < of_int k - 1 / 2"
  shows "roundHalfEven q < k"
proof (cases "q - of_int \<lfloor>q\<rfloor> < 1 / 2")
  case True
  have "of_int \<lfloor>q\<rfloor> \<le> q" by simp
  with assms have "(of_int \<lfloor>q\<rfloor> :: rat) < of_int k" by linarith
  then have "\<lfloor>q\<rfloor> < k" by (simp only: of_int_less_iff)
  with True show ?thesis by (simp add: roundHalfEven_def Let_def)
next
  case False
  with assms have "(of_int \<lfloor>q\<rfloor> :: rat) + 1 < of_int k" by linarith
  then have "(of_int (\<lfloor>q\<rfloor> + 1) :: rat) < of_int k" by simp
  then have "\<lfloor>q\<rfloor> + 1 < k" by (simp only: of_int_less_iff)
  then show ?thesis by (simp add: roundHalfEven_def Let_def)
qed

lemma roundHalfEven_upper: "of_int (roundHalfEven q) \<le> q + 1 / 2"
proof (cases "q - of_int \<lfloor>q\<rfloor> < 1 / 2")
  case True
  have "of_int \<lfloor>q\<rfloor> \<le> q" by simp
  then have "of_int \<lfloor>q\<rfloor> \<le> q + 1 / 2" by linarith
  with True show ?thesis by (simp add: roundHalfEven_def Let_def)
next
  case False
  then have "roundHalfEven q \<le> \<lfloor>q\<rfloor> + 1"
    by (simp add: roundHalfEven_def Let_def)
  then have "(of_int (roundHalfEven q) :: rat) \<le> of_int (\<lfloor>q\<rfloor> + 1)"
    by (simp only: of_int_le_iff)
  with False show ?thesis by simp
qed

lemma roundHalfEven_near:
  assumes "\<bar>q - of_int k\<bar> < 1 / 2"
  shows "roundHalfEven q = k"
proof -
  have lo: "k \<le> roundHalfEven q"
  proof (cases "of_int k \<le> q")
    case True
    then show ?thesis by (rule roundHalfEven_ge)
  next
    case False
    with assms have q: "of_int k - 1 / 2 < q" "q < of_int k" by linarith+
    then have "of_int (k - 1) \<le> q" by simp
    moreover from q have "q < of_int (k - 1) + 1" by simp
    ultimately have fl: "\<lfloor>q\<rfloor> = k - 1" by (simp add: floor_unique)
    from q have "1 / 2 < q - of_int (k - 1)" by simp
    then show ?thesis by (simp add: roundHalfEven_def Let_def fl)
  qed
  have "(of_int (k + 1) :: rat) = of_int k + 1" by simp
  with assms have "q < of_int (k + 1) - 1 / 2" by linarith
  then have "roundHalfEven q < k + 1" by (rule roundHalfEven_less)
  with lo show ?thesis by simp
qed

text \<open>The rounding of a positive number, with the unit in the last place as a power of two.\<close>

lemma float64_scaled:
  assumes "0 < x" "x < 2 powi 53"
  shows "float64 x = of_int (roundHalfEven (x * 2 ^ nat (52 - ilog2 x))) / 2 ^ nat (52 - ilog2 x)"
proof -
  from ilog2_less [OF assms] have e: "ilog2 x \<le> 52" by simp
  have "(2::rat) powi (ilog2 x - 52) = inverse (2 powi (52 - ilog2 x))"
    using power_int_minus [of "2::rat" "52 - ilog2 x"] by simp
  also have "\<dots> = 1 / 2 ^ nat (52 - ilog2 x)"
    using e by (simp add: power_int_def field_simps)
  finally have u: "(2::rat) powi (ilog2 x - 52) = 1 / 2 ^ nat (52 - ilog2 x)" .
  from assms(1) show ?thesis
    by (simp add: float64_def Let_def u)
qed

lemma float64_0: "float64 0 = 0"
  by (simp add: float64_def)

lemma float64_minus: "float64 (- x) = - float64 x"
  by (simp add: float64_def Let_def)

lemma float64_nonneg:
  assumes "0 \<le> x"
  shows "0 \<le> float64 x"
proof (cases "x = 0")
  case True
  then show ?thesis by (simp add: float64_0)
next
  case False
  with assms have pos: "0 < x" by simp
  let ?u = "(2::rat) powi (ilog2 \<bar>x\<bar> - 52)"
  have "0 \<le> \<bar>x\<bar> / ?u" by simp
  then have "(of_int 0 :: rat) \<le> \<bar>x\<bar> / ?u" by simp
  then have "0 \<le> roundHalfEven (\<bar>x\<bar> / ?u)" by (rule roundHalfEven_ge)
  then have "(0::rat) \<le> of_int (roundHalfEven (\<bar>x\<bar> / ?u))" by simp
  then have "(0::rat) \<le> of_int (roundHalfEven (\<bar>x\<bar> / ?u)) * ?u" by simp
  with pos show ?thesis by (simp add: float64_def Let_def)
qed

lemma float64_ge_int:
  assumes "0 < x" "x < 2 powi 53" "of_int k \<le> x"
  shows "of_int k \<le> float64 x"
proof -
  let ?N = "(2::rat) ^ nat (52 - ilog2 x)"
  have N: "0 < ?N" by simp
  have "of_int (k * 2 ^ nat (52 - ilog2 x)) = of_int k * ?N" by simp
  also have "\<dots> \<le> x * ?N" using assms(3) N by (simp only: mult_le_cancel_right_pos)
  finally have "k * 2 ^ nat (52 - ilog2 x) \<le> roundHalfEven (x * ?N)"
    by (rule roundHalfEven_ge)
  then have "(of_int (k * 2 ^ nat (52 - ilog2 x)) :: rat) \<le> of_int (roundHalfEven (x * ?N))"
    by (simp only: of_int_le_iff)
  then have "of_int k * ?N \<le> of_int (roundHalfEven (x * ?N))" by simp
  then have "of_int k \<le> of_int (roundHalfEven (x * ?N)) / ?N"
    using N by (simp add: pos_le_divide_eq)
  then show ?thesis by (simp only: float64_scaled [OF assms(1,2)])
qed

lemma float64_le_int:
  assumes "0 < x" "x < 2 powi 53" "x \<le> of_int k"
  shows "float64 x \<le> of_int k"
proof -
  let ?n = "nat (52 - ilog2 x)"
  let ?N = "(2::rat) ^ ?n"
  have N: "0 < ?N" by simp
  have "x * ?N \<le> of_int k * ?N" using assms(3) N by (simp only: mult_le_cancel_right_pos)
  moreover have "(of_int (k * 2 ^ ?n + 1) :: rat) = of_int k * ?N + 1" by simp
  ultimately have "x * ?N < of_int (k * 2 ^ ?n + 1) - 1 / 2" by linarith
  then have "roundHalfEven (x * ?N) < k * 2 ^ ?n + 1" by (rule roundHalfEven_less)
  then have "roundHalfEven (x * ?N) \<le> k * 2 ^ ?n" by simp
  then have "(of_int (roundHalfEven (x * ?N)) :: rat) \<le> of_int (k * 2 ^ ?n)"
    by (simp only: of_int_le_iff)
  then have "of_int (roundHalfEven (x * ?N)) \<le> of_int k * ?N" by simp
  then have "of_int (roundHalfEven (x * ?N)) / ?N \<le> of_int k"
    using N by (simp add: pos_divide_le_eq)
  then show ?thesis by (simp only: float64_scaled [OF assms(1,2)])
qed

lemma float64_of_int_pos:
  assumes "0 < k" "k < 2 ^ 53"
  shows "float64 (of_int k) = of_int k"
proof -
  have pos: "(0::rat) < of_int k" using assms(1) by simp
  have "(of_int k :: rat) < of_int (2 ^ 53)" using assms(2) by (simp only: of_int_less_iff)
  then have less: "(of_int k :: rat) < 2 powi 53" by simp
  from float64_ge_int [OF pos less, of k] float64_le_int [OF pos less, of k]
  show ?thesis by simp
qed

lemma float64_of_int:
  assumes "\<bar>k\<bar> < 2 ^ 53"
  shows "float64 (of_int k) = of_int k"
proof -
  consider "k = 0" | "0 < k" | "k < 0" by linarith
  then show ?thesis
  proof cases
    case 1
    then show ?thesis by (simp add: float64_0)
  next
    case 2
    with assms show ?thesis by (simp add: float64_of_int_pos)
  next
    case 3
    with assms have "float64 (of_int (- k)) = of_int (- k)"
      by (intro float64_of_int_pos) simp_all
    then show ?thesis by (simp add: float64_minus)
  qed
qed

lemma float64_less_int:
  assumes "0 < x" "x < 2 powi 24" "x < of_int k - 1 / 2 ^ 30"
  shows "float64 x < of_int k"
proof -
  let ?n = "nat (52 - ilog2 x)"
  let ?N = "(2::rat) ^ ?n"
  have N: "0 < ?N" by simp
  have "(2::rat) powi 24 \<le> 2 powi 53" by (intro power_int_increasing) simp_all
  with assms(2) have less: "x < 2 powi 53" by simp
  from ilog2_less [OF assms(1,2)] have "29 \<le> ?n" by simp
  then have "(2::rat) ^ 29 \<le> ?N" by (intro power_increasing) simp_all
  then have half: "1 / 2 \<le> ?N / 2 ^ 30" by simp
  have "x * ?N < (of_int k - 1 / 2 ^ 30) * ?N"
    using assms(3) N by (simp only: mult_less_cancel_right_pos)
  also have "\<dots> = of_int k * ?N - ?N / 2 ^ 30" by (simp add: algebra_simps)
  also have "\<dots> \<le> of_int k * ?N - 1 / 2" using half by simp
  finally have "x * ?N < of_int (k * 2 ^ ?n) - 1 / 2" by simp
  then have "roundHalfEven (x * ?N) < k * 2 ^ ?n" by (rule roundHalfEven_less)
  then have "(of_int (roundHalfEven (x * ?N)) :: rat) < of_int (k * 2 ^ ?n)"
    by (simp only: of_int_less_iff)
  then have "of_int (roundHalfEven (x * ?N)) < of_int k * ?N" by simp
  then have "of_int (roundHalfEven (x * ?N)) / ?N < of_int k"
    using N by (simp add: pos_divide_less_eq)
  then show ?thesis by (simp only: float64_scaled [OF assms(1) less])
qed

lemma float64_fraction_upper:
  assumes "0 < x" "x < 1"
  shows "float64 x \<le> x + 1 / 2 ^ 54"
proof -
  let ?n = "nat (52 - ilog2 x)"
  let ?N = "(2::rat) ^ ?n"
  have N: "0 < ?N" by simp
  from assms(2) have one: "x < 2 powi 0" by simp
  have "(2::rat) powi 0 \<le> 2 powi 53" by (intro power_int_increasing) simp_all
  with one have less: "x < 2 powi 53" by (simp del: power_int_0_right)
  from ilog2_less [OF assms(1) one] have "53 \<le> ?n" by simp
  then have "(2::rat) ^ 53 \<le> ?N" by (intro power_increasing) simp_all
  then have "1 / ?N \<le> 1 / 2 ^ 53" by (simp add: field_simps)
  then have half: "(1 / 2) / ?N \<le> 1 / 2 ^ 54" by simp
  have "of_int (roundHalfEven (x * ?N)) / ?N \<le> (x * ?N + 1 / 2) / ?N"
    using roundHalfEven_upper [of "x * ?N"] N by (simp only: divide_le_cancel) simp
  also have "\<dots> = x + (1 / 2) / ?N" by (simp add: field_simps)
  also have "\<dots> \<le> x + 1 / 2 ^ 54" using half by simp
  finally show ?thesis by (simp only: float64_scaled [OF assms(1) less])
qed

lemma roundHalfEven_lower: "q - 1 / 2 \<le> of_int (roundHalfEven q)"
proof (cases "q - of_int \<lfloor>q\<rfloor> < 1 / 2")
  case True
  then show ?thesis by (simp add: roundHalfEven_def Let_def)
next
  case False
  show ?thesis
  proof (cases "1 / 2 < q - of_int \<lfloor>q\<rfloor>")
    case True
    have "q < of_int \<lfloor>q\<rfloor> + 1" by linarith
    with True show ?thesis by (simp add: roundHalfEven_def Let_def)
  next
    case half: False
    with False have "q - 1 / 2 = of_int \<lfloor>q\<rfloor>" by linarith
    moreover from False have "\<lfloor>q\<rfloor> \<le> roundHalfEven q"
      by (simp add: roundHalfEven_def Let_def)
    then have "(of_int \<lfloor>q\<rfloor> :: rat) \<le> of_int (roundHalfEven q)"
      by (simp only: of_int_le_iff)
    ultimately show ?thesis by simp
  qed
qed

lemma float64_fraction_lower:
  assumes "0 < x" "x < 1"
  shows "x - 1 / 2 ^ 54 \<le> float64 x"
proof -
  let ?n = "nat (52 - ilog2 x)"
  let ?N = "(2::rat) ^ ?n"
  have N: "0 < ?N" by simp
  from assms(2) have one: "x < 2 powi 0" by simp
  have "(2::rat) powi 0 \<le> 2 powi 53" by (intro power_int_increasing) simp_all
  with one have less: "x < 2 powi 53" by (simp del: power_int_0_right)
  from ilog2_less [OF assms(1) one] have "53 \<le> ?n" by simp
  then have "(2::rat) ^ 53 \<le> ?N" by (intro power_increasing) simp_all
  then have "1 / ?N \<le> 1 / 2 ^ 53" by (simp add: field_simps)
  then have half: "(1 / 2) / ?N \<le> 1 / 2 ^ 54" by simp
  have "x - 1 / 2 ^ 54 \<le> x - (1 / 2) / ?N" using half by simp
  also have "\<dots> = (x * ?N - 1 / 2) / ?N" by (simp add: field_simps)
  also have "\<dots> \<le> of_int (roundHalfEven (x * ?N)) / ?N"
    using roundHalfEven_lower [of "x * ?N"] N by (simp only: divide_le_cancel) simp
  finally show ?thesis by (simp only: float64_scaled [OF assms(1) less])
qed

lemma quo_nonneg: "0 \<le> d \<Longrightarrow> quo d Second = d div Second"
  by (cases "d = 0") (simp_all add: quo_def Second_def)

lemma rem_nonneg: "0 \<le> d \<Longrightarrow> rem d Second = d mod Second"
  by (simp add: rem_def quo_nonneg minus_mult_div_eq_mod)

lemma quo_minus: "quo (- a) b = - quo a b"
  by (simp add: quo_def)

lemma rem_minus: "rem (- a) b = - rem a b"
  by (simp add: rem_def quo_minus)

lemma float64_billion: "float64 1000000000 = 1000000000"
  using float64_of_int [of 1000000000] by simp

lemma Seconds_nonneg:
  assumes "0 \<le> d"
  shows "Seconds d =
    float64 (float64 (of_int (d div Second)) + float64 (float64 (of_int (d mod Second)) / 1000000000))"
  by (simp add: Seconds_def Let_def quo_nonneg rem_nonneg assms float64_billion)

lemma Seconds_minus: "Seconds (- d) = - Seconds d"
proof -
  have "float64 (- a + - b) = - float64 (a + b)" for a b
    using float64_minus [of "a + b"] by simp
  then show ?thesis
    by (simp add: Seconds_def Let_def quo_minus rem_minus float64_minus)
qed

lemma toInt_minus: "toInt (- f) = - toInt f"
  by (cases "f = 0") (auto simp: toInt_def ceiling_minus floor_minus)

lemma fraction_rounded:
  assumes "0 \<le> n" "n < 1000000000"
  shows "0 \<le> float64 (float64 (of_int n) / 1000000000)"
    and "float64 (float64 (of_int n) / 1000000000) < 1 - 1 / 2 ^ 30"
proof -
  from assms have fn: "float64 (of_int n) = of_int n"
    by (intro float64_of_int) simp
  let ?z = "(of_int n :: rat) / 1000000000"
  have z0: "0 \<le> ?z" using assms(1) by simp
  then show "0 \<le> float64 (float64 (of_int n) / 1000000000)"
    unfolding fn by (rule float64_nonneg)
  have "n \<le> 999999999" using assms(2) by simp
  then have "(of_int n :: rat) \<le> of_int 999999999" by (simp only: of_int_le_iff)
  then have z1: "?z \<le> 999999999 / 1000000000" by simp
  show "float64 (float64 (of_int n) / 1000000000) < 1 - 1 / 2 ^ 30"
  proof (cases "n = 0")
    case True
    then show ?thesis by (simp add: float64_0)
  next
    case False
    with assms(1) have "0 < ?z" by simp
    moreover from z1 have "?z < 1" by simp
    ultimately have "float64 ?z \<le> ?z + 1 / 2 ^ 54" by (rule float64_fraction_upper)
    also have "\<dots> \<le> 999999999 / 1000000000 + 1 / 2 ^ 54" using z1 by simp
    also have "\<dots> < 1 - 1 / 2 ^ 30" by simp
    finally show ?thesis unfolding fn .
  qed
qed

lemma Seconds_whole_nonneg:
  assumes "0 \<le> d" "d < 2 ^ 24 * Second"
  shows "toInt (Seconds d) = d div Second"
proof -
  define sec where "sec = d div Second"
  define y where "y = float64 (float64 (of_int (d mod Second)) / 1000000000)"
  have sec0: "0 \<le> sec"
    using assms(1) by (simp add: sec_def Second_def pos_imp_zdiv_nonneg_iff)
  have sec1: "sec < 2 ^ 24"
    using assms(2) by (simp add: sec_def Second_def div_less_iff_less_mult)
  have fsec: "float64 (of_int sec) = of_int sec"
    using sec0 sec1 by (intro float64_of_int) simp
  have "0 \<le> d mod Second" "d mod Second < 1000000000"
    by (simp_all add: Second_def)
  from fraction_rounded [OF this]
  have y0: "0 \<le> y" and y1: "y < 1 - 1 / 2 ^ 30"
    by (simp_all add: y_def)
  have S: "Seconds d = float64 (of_int sec + y)"
    by (simp add: Seconds_nonneg [OF assms(1)] sec_def y_def fsec [unfolded sec_def])
  show ?thesis
  proof (cases "of_int sec + y = 0")
    case True
    moreover from sec0 have "(0::rat) \<le> of_int sec" by simp
    ultimately have "(of_int sec :: rat) = 0" using y0 by linarith
    then have "sec = 0" by simp
    with True show ?thesis by (simp add: S float64_0 toInt_def sec_def)
  next
    case False
    moreover from sec0 have "(0::rat) \<le> of_int sec" by simp
    ultimately have pos: "0 < of_int sec + y" using y0 by linarith
    from sec1 have "sec + 1 \<le> 2 ^ 24" by simp
    then have "(of_int (sec + 1) :: rat) \<le> of_int (2 ^ 24)"
      by (simp only: of_int_le_iff)
    then have top: "(of_int sec :: rat) + 1 \<le> 2 powi 24" by simp
    with y1 have small: "of_int sec + y < 2 powi 24" by simp
    have "(2::rat) powi 24 \<le> 2 powi 53" by (intro power_int_increasing) simp_all
    with small have less: "of_int sec + y < 2 powi 53" by simp
    from y1 have "of_int sec + y < of_int (sec + 1) - 1 / 2 ^ 30" by simp
    from float64_less_int [OF pos small this]
    have up: "float64 (of_int sec + y) < of_int sec + 1" by simp
    from y0 have "of_int sec \<le> of_int sec + y" by simp
    from float64_ge_int [OF pos less this]
    have lo: "of_int sec \<le> float64 (of_int sec + y)" .
    from lo up have "\<lfloor>float64 (of_int sec + y)\<rfloor> = sec" by (simp add: floor_unique)
    moreover from sec0 have "(0::rat) \<le> of_int sec" by simp
    with lo have "0 \<le> float64 (of_int sec + y)" by linarith
    ultimately show ?thesis by (simp add: S toInt_def sec_def)
  qed
qed

lemma Seconds_whole:
  assumes "\<bar>d\<bar> < 2 ^ 24 * Second"
  shows "toInt (Seconds d) = quo d Second"
proof (cases "0 \<le> d")
  case True
  with assms show ?thesis by (simp add: Seconds_whole_nonneg quo_nonneg)
next
  case False
  with assms have "toInt (Seconds (- d)) = (- d) div Second"
    by (intro Seconds_whole_nonneg) simp_all
  moreover from False have "quo (- d) Second = (- d) div Second"
    by (intro quo_nonneg) simp
  ultimately show ?thesis
    by (simp add: Seconds_minus toInt_minus quo_minus)
qed

lemma Seconds_rounds_up: "Seconds 16777216999999999 = 16777217"
proof -
  let ?z = "(999999999 :: rat) / 1000000000"
  define y where "y = float64 ?z"
  have "0 < ?z" "?z < 1" by simp_all
  from float64_fraction_lower [OF this] float64_fraction_upper [OF this]
  have y: "?z - 1 / 2 ^ 54 \<le> y" "y \<le> ?z + 1 / 2 ^ 54"
    by (simp_all add: y_def)
  let ?x = "16777216 + y"
  have f1: "float64 (of_int 16777216) = of_int 16777216"
    by (intro float64_of_int) simp
  have f2: "float64 (of_int 999999999) = of_int 999999999"
    by (intro float64_of_int) simp
  have S: "Seconds 16777216999999999 = float64 ?x"
    using f1 f2 by (simp add: Seconds_nonneg Second_def y_def)
  have lo: "2 powi 24 \<le> ?x" using y(1) by simp
  have hi: "?x < 2 powi (24 + 1)" using y(2) by simp
  from lo hi have e: "ilog2 ?x = 24" by (rule ilog2_unique)
  have pos: "0 < ?x" using y(1) by simp
  have less: "?x < 2 powi 53" using y(2) by simp
  have "\<bar>?x * 2 ^ 28 - of_int (16777217 * 2 ^ 28)\<bar> < 1 / 2"
    using y by simp
  then have "roundHalfEven (?x * 2 ^ 28) = 16777217 * 2 ^ 28"
    by (rule roundHalfEven_near)
  then have "float64 ?x = 16777217"
    by (simp add: float64_scaled [OF pos less] e)
  with S show ?thesis by simp
qed

lemma showInt_3600: "showInt 3600 = ''3600''"
  by (simp add: showInt_def showNat.simps)

lemma showInt_16777217: "showInt 16777217 = ''16777217''"
  by (simp add: showInt_def showNat.simps)

lemma cacheControlOf_Hour: "cacheControlOf Hour = ''public, max-age=3600''"
proof -
  have "toInt (Seconds Hour) = quo Hour Second"
    by (rule Seconds_whole) (simp add: Hour_def Minute_def Second_def)
  also have "\<dots> = 3600"
    by (simp add: quo_def Hour_def Minute_def Second_def)
  finally show ?thesis by (simp add: cacheControlOf_def showInt_3600)
qed

subsection \<open>The subscription loop\<close>

lemma run_append:
  "run s (xs @ ys) = (case run s xs of None \<Rightarrow> None | Some s' \<Rightarrow> run s' ys)"
  by (induction xs arbitrary: s) (simp_all split: option.splits)

lemma run_take:
  assumes "run s evs = Some s'"
  shows "\<exists>t. run s (take n evs) = Some t"
proof -
  have "run s (take n evs @ drop n evs) = Some s'" using assms by simp
  then show ?thesis
    unfolding run_append by (cases "run s (take n evs)") simp_all
qed

lemma step_cases:
  assumes "step s e = Some t"
  obtains
    (send) "pc s = AtSend" "pc t = AtReceive" "handler t = handler s" "topicVar t = topicVar s"
      "e = Send (Subscribe (handler s)) \<lparr>Topic = topicVar s, DeliveryChannel = Input (handler s)\<rparr>"
  | (receive) r where "pc s = AtReceive" "pc t = AtSend"
      "handler t = (handler s)\<lparr>Renderer := r\<rparr>" "topicVar t = topicVar s"
      "e = Receive (Input (handler s)) r"
  | (serve) c where "t = s" "e = Serve c"
  using assms by (cases e) (auto split: if_splits)

lemma step_sameLoop:
  assumes "step s e = Some t"
  shows "sameLoop s t"
  using assms by (rule step_cases) (simp_all add: sameLoop_def)

lemma sameLoop_refl: "sameLoop s s"
  by (simp add: sameLoop_def)

lemma sameLoop_trans: "sameLoop s t \<Longrightarrow> sameLoop t u \<Longrightarrow> sameLoop s u"
  by (simp add: sameLoop_def)

lemma run_sameLoop:
  assumes "run s evs = Some t"
  shows "sameLoop s t"
  using assms
proof (induction evs arbitrary: s)
  case Nil
  then show ?case by (simp add: sameLoop_refl)
next
  case (Cons e evs)
  then obtain m where m: "step s e = Some m" and rest: "run m evs = Some t"
    by (auto split: option.splits)
  from step_sameLoop [OF m] Cons.IH [OF rest] show ?case by (rule sameLoop_trans)
qed

lemma run_sent:
  assumes "run s evs = Some t"
  shows "set (sent evs)
    \<subseteq> {(Subscribe (handler s), \<lparr>Topic = topicVar s, DeliveryChannel = Input (handler s)\<rparr>)}"
  using assms
proof (induction evs arbitrary: s)
  case Nil
  then show ?case by simp
next
  case (Cons e evs)
  then obtain m where m: "step s e = Some m" and rest: "run m evs = Some t"
    by (auto split: option.splits)
  from step_sameLoop [OF m] Cons.IH [OF rest]
  have "set (sent evs)
    \<subseteq> {(Subscribe (handler s), \<lparr>Topic = topicVar s, DeliveryChannel = Input (handler s)\<rparr>)}"
    by (simp add: sameLoop_def)
  note tail = this
  from m show ?case
  proof (cases rule: step_cases)
    case send
    with tail show ?thesis by simp
  next
    case (receive r)
    with tail show ?thesis by simp
  next
    case (serve c)
    with tail show ?thesis by simp
  qed
qed

text \<open>
  Sends and deliveries take turns, a send first; the renderer is the last one delivered.
\<close>

lemma run_turns:
  assumes "run s evs = Some t"
  shows "(pc s = AtSend \<longrightarrow>
            (pc t = AtSend \<and> length (sent evs) = length (delivered evs))
          \<or> (pc t = AtReceive \<and> length (sent evs) = length (delivered evs) + 1))
       \<and> (pc s = AtReceive \<longrightarrow>
            (pc t = AtReceive \<and> length (sent evs) = length (delivered evs))
          \<or> (pc t = AtSend \<and> length (sent evs) + 1 = length (delivered evs)))"
  using assms
proof (induction evs arbitrary: s)
  case Nil
  then show ?case by (cases "pc s") simp_all
next
  case (Cons e evs)
  then obtain m where m: "step s e = Some m" and rest: "run m evs = Some t"
    by (auto split: option.splits)
  note tail = Cons.IH [OF rest]
  from m show ?case
  proof (cases rule: step_cases)
    case send
    with tail show ?thesis by auto
  next
    case (receive r)
    with tail show ?thesis by auto
  next
    case (serve c)
    with tail show ?thesis by simp
  qed
qed

lemma run_renderer:
  assumes "run s evs = Some t"
  shows "Renderer (handler t) = last (Renderer (handler s) # delivered evs)"
  using assms
proof (induction evs arbitrary: s)
  case Nil
  then show ?case by simp
next
  case (Cons e evs)
  then obtain m where m: "step s e = Some m" and rest: "run m evs = Some t"
    by (auto split: option.splits)
  note tail = Cons.IH [OF rest]
  from m show ?case
  proof (cases rule: step_cases)
    case send
    with tail show ?thesis by simp
  next
    case (receive r)
    with tail show ?thesis by simp
  next
    case (serve c)
    with tail show ?thesis by simp
  qed
qed

lemma topic_homePage: "topic homePage = ''base-:-home''"
  by (simp add: topic_def homePage_def)

lemma homeTrace_runs:
  "run (updateRenderer (NewHandler homeConfig 7 8)) homeTrace
     = Some \<lparr>handler = (NewHandler homeConfig 7 8)\<lparr>Renderer := textRenderer ''<p>v2</p>''\<rparr>,
             topicVar = ''base-:-home'', pc = AtSend\<rparr>"
  by (simp add: homeTrace_def updateRenderer_def NewHandler_def homeConfig_def
      homeSubscription_def topic_homePage)

lemma sent_homeTrace: "sent homeTrace = [(7, homeSubscription), (7, homeSubscription)]"
  by (simp add: homeTrace_def)

lemma delivered_homeTrace:
  "delivered homeTrace = [textRenderer ''<p>v1</p>'', textRenderer ''<p>v2</p>'']"
  by (simp add: homeTrace_def)

text \<open>
  Claim C5. The topic a handler registers under is the page's template when the page has
  no layout, and the layout, \<open>-:-\<close> and the template when it has one; two pages with
  the same template and layout have the same topic; and every subscription the loop sends
  carries this topic.
\<close>

theorem topic_of_page:
  "(Layout page = '''' \<longrightarrow> topic page = Template page)
   \<and> (Layout page \<noteq> '''' \<longrightarrow> topic page = Layout page @ ''-:-'' @ Template page)
   \<and> (Template page = Template page' \<and> Layout page = Layout page' \<longrightarrow> topic page = topic page')
   \<and> (run (updateRenderer h) evs = Some s \<and> (ch, sub) \<in> set (sent evs)
        \<longrightarrow> Topic sub = topic (Page h))"
proof -
  have "Topic sub = topic (Page h)"
    if "run (updateRenderer h) evs = Some s" and "(ch, sub) \<in> set (sent evs)"
    using run_sent [OF that(1)] that(2) by (auto simp: updateRenderer_def)
  then show ?thesis by (simp add: topic_def)
qed

theorem topic_of_page_witness:
  "topic (homePage\<lparr>Layout := ''''\<rparr>) = ''home''
   \<and> topic homePage = ''base-:-home''
   \<and> topic (homePage\<lparr>Name := ''landing'', CacheTTL := ''1h''\<rparr>) = topic homePage
   \<and> Topic homeSubscription = ''base-:-home''"
proof (intro conjI)
  show "topic (homePage\<lparr>Layout := ''''\<rparr>) = ''home''"
    using topic_of_page [THEN conjunct1, of "homePage\<lparr>Layout := ''''\<rparr>"]
    by (simp add: homePage_def)
  show 2: "topic homePage = ''base-:-home''"
    using topic_of_page [THEN conjunct2, THEN conjunct1, of homePage]
    by (simp add: homePage_def)
  show "topic (homePage\<lparr>Name := ''landing'', CacheTTL := ''1h''\<rparr>) = topic homePage"
    using topic_of_page [THEN conjunct2, THEN conjunct2, THEN conjunct1,
        of "homePage\<lparr>Name := ''landing'', CacheTTL := ''1h''\<rparr>" homePage]
    by simp
  have "(7, homeSubscription) \<in> set (sent homeTrace)"
    by (simp add: sent_homeTrace)
  with topic_of_page [THEN conjunct2, THEN conjunct2, THEN conjunct2,
      of "NewHandler homeConfig 7 8" homeTrace _ 7 homeSubscription]
    homeTrace_runs
  have "Topic homeSubscription = topic (Page (NewHandler homeConfig 7 8))" by blast
  then show "Topic homeSubscription = ''base-:-home''"
    by (simp add: NewHandler_def homeConfig_def 2)
qed

text \<open>
  Claim C4. In every run of the loop, each subscription sent goes on the shared
  registration channel and is the topic with the handler's private channel; at every
  moment the subscriptions sent are as many as the renderers delivered, or one more, so
  that no second subscription is sent before a renderer has arrived and no subscription
  gets two deliveries; the handler's renderer is the last one received; the loop is at its
  send exactly when every subscription has had its delivery; and the loop is never stuck:
  at the send the subscription can be sent, at the receive any renderer can be delivered.
\<close>

theorem updateRenderer_one_shot_rearming:
  "run (updateRenderer h) evs = Some s \<longrightarrow>
     set (sent evs) \<subseteq> {(Subscribe h, \<lparr>Topic = topic (Page h), DeliveryChannel = Input h\<rparr>)}
     \<and> (\<forall>n. length (delivered (take n evs)) \<le> length (sent (take n evs))
            \<and> length (sent (take n evs)) \<le> length (delivered (take n evs)) + 1)
     \<and> Renderer (handler s) = last (Renderer h # delivered evs)
     \<and> (pc s = AtSend \<longleftrightarrow> length (sent evs) = length (delivered evs))
     \<and> (pc s = AtReceive \<longleftrightarrow> length (sent evs) = length (delivered evs) + 1)
     \<and> (pc s = AtSend \<longrightarrow>
          step s (Send (Subscribe h) \<lparr>Topic = topic (Page h), DeliveryChannel = Input h\<rparr>)
            = Some (s\<lparr>pc := AtReceive\<rparr>))
     \<and> (pc s = AtReceive \<longrightarrow>
          step s (Receive (Input h) r) = Some (s\<lparr>handler := (handler s)\<lparr>Renderer := r\<rparr>, pc := AtSend\<rparr>))"
proof
  assume run: "run (updateRenderer h) evs = Some s"
  have start: "pc (updateRenderer h) = AtSend" "handler (updateRenderer h) = h"
    "topicVar (updateRenderer h) = topic (Page h)"
    by (simp_all add: updateRenderer_def)
  from run_sent [OF run]
  have 1: "set (sent evs) \<subseteq> {(Subscribe h, \<lparr>Topic = topic (Page h), DeliveryChannel = Input h\<rparr>)}"
    by (simp add: start)
  have 2: "length (delivered (take n evs)) \<le> length (sent (take n evs))
      \<and> length (sent (take n evs)) \<le> length (delivered (take n evs)) + 1" for n
  proof -
    from run_take [OF run] obtain t where "run (updateRenderer h) (take n evs) = Some t" ..
    from run_turns [OF this] start(1) show ?thesis by auto
  qed
  from run_renderer [OF run]
  have 3: "Renderer (handler s) = last (Renderer h # delivered evs)"
    by (simp add: start)
  from run_turns [OF run] start(1)
  have turns: "(pc s = AtSend \<and> length (sent evs) = length (delivered evs))
      \<or> (pc s = AtReceive \<and> length (sent evs) = length (delivered evs) + 1)"
    by simp
  then have 4: "pc s = AtSend \<longleftrightarrow> length (sent evs) = length (delivered evs)"
    and 5: "pc s = AtReceive \<longleftrightarrow> length (sent evs) = length (delivered evs) + 1"
    by auto
  from run_sameLoop [OF run]
  have same: "Subscribe (handler s) = Subscribe h" "Input (handler s) = Input h"
    "topicVar s = topic (Page h)"
    by (simp_all add: sameLoop_def start)
  have 6: "pc s = AtSend \<longrightarrow>
      step s (Send (Subscribe h) \<lparr>Topic = topic (Page h), DeliveryChannel = Input h\<rparr>)
        = Some (s\<lparr>pc := AtReceive\<rparr>)"
    by (simp add: same)
  have 7: "pc s = AtReceive \<longrightarrow>
      step s (Receive (Input h) r) = Some (s\<lparr>handler := (handler s)\<lparr>Renderer := r\<rparr>, pc := AtSend\<rparr>)"
    by (simp add: same)
  from 1 2 3 4 5 6 7
  show "set (sent evs) \<subseteq> {(Subscribe h, \<lparr>Topic = topic (Page h), DeliveryChannel = Input h\<rparr>)}
     \<and> (\<forall>n. length (delivered (take n evs)) \<le> length (sent (take n evs))
            \<and> length (sent (take n evs)) \<le> length (delivered (take n evs)) + 1)
     \<and> Renderer (handler s) = last (Renderer h # delivered evs)
     \<and> (pc s = AtSend \<longleftrightarrow> length (sent evs) = length (delivered evs))
     \<and> (pc s = AtReceive \<longleftrightarrow> length (sent evs) = length (delivered evs) + 1)
     \<and> (pc s = AtSend \<longrightarrow>
          step s (Send (Subscribe h) \<lparr>Topic = topic (Page h), DeliveryChannel = Input h\<rparr>)
            = Some (s\<lparr>pc := AtReceive\<rparr>))
     \<and> (pc s = AtReceive \<longrightarrow>
          step s (Receive (Input h) r) = Some (s\<lparr>handler := (handler s)\<lparr>Renderer := r\<rparr>, pc := AtSend\<rparr>))"
    by blast
qed

theorem updateRenderer_one_shot_rearming_witness:
  "run (updateRenderer (NewHandler homeConfig 7 8)) homeTrace
     = Some \<lparr>handler = (NewHandler homeConfig 7 8)\<lparr>Renderer := textRenderer ''<p>v2</p>''\<rparr>,
             topicVar = ''base-:-home'', pc = AtSend\<rparr>
   \<and> set (sent homeTrace) \<subseteq> {(7, \<lparr>Topic = ''base-:-home'', DeliveryChannel = 8\<rparr>)}
   \<and> length (sent (take 4 homeTrace)) = length (delivered (take 4 homeTrace)) + 1
   \<and> last (Renderer (NewHandler homeConfig 7 8) # delivered homeTrace) = textRenderer ''<p>v2</p>''"
proof -
  let ?h = "NewHandler homeConfig 7 8"
  let ?s = "\<lparr>handler = ?h\<lparr>Renderer := textRenderer ''<p>v2</p>''\<rparr>,
             topicVar = ''base-:-home'', pc = AtSend\<rparr>"
  have h: "Subscribe ?h = 7" "Input ?h = 8" "topic (Page ?h) = ''base-:-home''"
    by (simp_all add: NewHandler_def homeConfig_def topic_homePage)
  from updateRenderer_one_shot_rearming [of ?h homeTrace ?s] homeTrace_runs
  have "set (sent homeTrace) \<subseteq> {(7, \<lparr>Topic = ''base-:-home'', DeliveryChannel = 8\<rparr>)}"
    and "Renderer (handler ?s) = last (Renderer ?h # delivered homeTrace)"
    unfolding h by blast+
  moreover have "length (sent (take 4 homeTrace)) = length (delivered (take 4 homeTrace)) + 1"
    by (simp add: homeTrace_def)
  ultimately show ?thesis using homeTrace_runs by simp
qed

subsection \<open>The loop next to the requests\<close>









subsection \<open>Serving a request\<close>

lemma HandlerFunc_generate_fails:
  assumes "ResponseGenerator h c = Inl err"
  shows "HandlerFunc newrelicApp h c =
    (if newrelicApp then [SetName (Name (Page h))] else [])
    @ [Generate, AbortWithError 500 err]"
  using assms by (simp add: HandlerFunc_def StatusInternalServerError_def)

lemma HandlerFunc_render_fails:
  assumes "ResponseGenerator h c = Inr result" and "Renderer h result = (out, Some err)"
  shows "HandlerFunc newrelicApp h c =
    (if newrelicApp then [SetName (Name (Page h))] else [])
    @ Generate # (if newrelicApp then [StartSegment ''Render''] else [])
    @ [Header ''Cache-Control'' (CacheControl h), Render result out, AbortWithError 500 err]
    @ (if newrelicApp then [EndSegment] else [])"
  using assms by (simp add: HandlerFunc_def StatusInternalServerError_def)

lemma HandlerFunc_succeeds:
  assumes "ResponseGenerator h c = Inr result" and "Renderer h result = (out, None)"
  shows "HandlerFunc newrelicApp h c =
    (if newrelicApp then [SetName (Name (Page h))] else [])
    @ Generate # (if newrelicApp then [StartSegment ''Render''] else [])
    @ [Header ''Cache-Control'' (CacheControl h), Render result out]
    @ (if newrelicApp then [EndSegment] else [])"
  using assms by (simp add: HandlerFunc_def)

text \<open>
  Claim C6. When the response generator returns an error, the handler aborts the request
  with that error and the status 500, sets no header, so no Cache-Control, and does not
  call the renderer; when the generator succeeds and the renderer returns an error, the
  handler aborts with that error and the status 500 as well. In both cases the generator
  is called once, the renderer at most once, and the request is aborted once: nothing is
  tried again.
\<close>

theorem HandlerFunc_aborts_on_error:
  "(ResponseGenerator h c = Inl err \<longrightarrow>
      AbortWithError 500 err \<in> set (HandlerFunc newrelicApp h c)
      \<and> filter isAbort (HandlerFunc newrelicApp h c) = [AbortWithError 500 err]
      \<and> filter isHeader (HandlerFunc newrelicApp h c) = []
      \<and> filter isRender (HandlerFunc newrelicApp h c) = []
      \<and> count_list (HandlerFunc newrelicApp h c) Generate = 1)
   \<and> (ResponseGenerator h c = Inr result \<and> Renderer h result = (out, Some err) \<longrightarrow>
      AbortWithError 500 err \<in> set (HandlerFunc newrelicApp h c)
      \<and> filter isAbort (HandlerFunc newrelicApp h c) = [AbortWithError 500 err]
      \<and> filter isRender (HandlerFunc newrelicApp h c) = [Render result out]
      \<and> count_list (HandlerFunc newrelicApp h c) Generate = 1)"
proof (intro conjI impI)
  assume gen: "ResponseGenerator h c = Inl err"
  note calls = HandlerFunc_generate_fails [OF gen, of newrelicApp]
  show "AbortWithError 500 err \<in> set (HandlerFunc newrelicApp h c)"
    unfolding calls by simp
  show "filter isAbort (HandlerFunc newrelicApp h c) = [AbortWithError 500 err]"
    unfolding calls by simp
  show "filter isHeader (HandlerFunc newrelicApp h c) = []"
    unfolding calls by simp
  show "filter isRender (HandlerFunc newrelicApp h c) = []"
    unfolding calls by simp
  show "count_list (HandlerFunc newrelicApp h c) Generate = 1"
    unfolding calls by simp
next
  assume "ResponseGenerator h c = Inr result \<and> Renderer h result = (out, Some err)"
  then have gen: "ResponseGenerator h c = Inr result"
    and render: "Renderer h result = (out, Some err)"
    by simp_all
  note calls = HandlerFunc_render_fails [OF gen render, of newrelicApp]
  show "AbortWithError 500 err \<in> set (HandlerFunc newrelicApp h c)"
    unfolding calls by simp
  show "filter isAbort (HandlerFunc newrelicApp h c) = [AbortWithError 500 err]"
    unfolding calls by simp
  show "filter isRender (HandlerFunc newrelicApp h c) = [Render result out]"
    unfolding calls by simp
  show "count_list (HandlerFunc newrelicApp h c) Generate = 1"
    unfolding calls by simp
qed

theorem HandlerFunc_aborts_on_error_witness:
  "filter isAbort
     (HandlerFunc True
        (NewHandler (homeConfig\<lparr>ResponseGenerator := failingGenerator ''status 500''\<rparr>) 7 8) ''/'')
     = [AbortWithError 500 ''status 500'']
   \<and> filter isHeader
     (HandlerFunc True
        (NewHandler (homeConfig\<lparr>ResponseGenerator := failingGenerator ''status 500''\<rparr>) 7 8) ''/'')
     = []
   \<and> filter isRender
     (HandlerFunc True
        (NewHandler (homeConfig\<lparr>ResponseGenerator := failingGenerator ''status 500''\<rparr>) 7 8) ''/'')
     = []
   \<and> filter isAbort
     (HandlerFunc False
        (NewHandler (homeConfig\<lparr>Renderer := failingRenderer ''missing partial''\<rparr>) 7 8) ''/'')
     = [AbortWithError 500 ''missing partial'']
   \<and> filter isRender
     (HandlerFunc False
        (NewHandler (homeConfig\<lparr>Renderer := failingRenderer ''missing partial''\<rparr>) 7 8) ''/'')
     = [Render ''title=api2html'' '''']"
proof -
  let ?g = "NewHandler (homeConfig\<lparr>ResponseGenerator := failingGenerator ''status 500''\<rparr>) 7 8"
  let ?r = "NewHandler (homeConfig\<lparr>Renderer := failingRenderer ''missing partial''\<rparr>) 7 8"
  have g: "ResponseGenerator ?g ''/'' = Inl ''status 500''"
    by (simp add: NewHandler_def failingGenerator_def)
  have r: "ResponseGenerator ?r ''/'' = Inr ''title=api2html''
      \<and> Renderer ?r ''title=api2html'' = ('''', Some ''missing partial'')"
    by (simp add: NewHandler_def homeConfig_def homePage_def StaticResponseGenerator_def
        failingRenderer_def)
  from HandlerFunc_aborts_on_error [THEN conjunct1, of ?g "''/''" "''status 500''" True] g
    HandlerFunc_aborts_on_error [THEN conjunct2,
      of ?r "''/''" "''title=api2html''" "''''" "''missing partial''" False] r
  show ?thesis by blast
qed

subsection \<open>Handler configurations\<close>

lemma CacheControl_of_NewHandlerConfig:
  "CacheControl (NewHandlerConfig env page) =
     cacheControlOf (case ParseDuration env (CacheTTL page) of Inl err \<Rightarrow> Hour | Inr d \<Rightarrow> d)"
  by (simp add: NewHandlerConfig_def Let_def)

lemma NewHandlerConfig_binds_static:
  assumes "BackendURLPattern page = ''''"
  shows "ResponseGenerator (NewHandlerConfig env page) = StaticResponseGenerator page"
  using assms by (simp add: NewHandlerConfig_def Let_def)

lemma NewHandler_fields:
  "ResponseGenerator (NewHandler cfg subscriptionChan input) = ResponseGenerator cfg"
  "CacheControl (NewHandler cfg subscriptionChan input) = CacheControl cfg"
  "Renderer (NewHandler cfg subscriptionChan input) = Renderer cfg"
  by (simp_all add: NewHandler_def)

lemma HandlerFunc_header:
  assumes "ResponseGenerator h c = Inr result"
  shows "filter isHeader (HandlerFunc newrelicApp h c) = [Header ''Cache-Control'' (CacheControl h)]"
proof (cases "Renderer h result")
  case (Pair out err)
  show ?thesis
  proof (cases err)
    case None
    with Pair have "Renderer h result = (out, None)" by simp
    from HandlerFunc_succeeds [OF assms this, of newrelicApp] show ?thesis by simp
  next
    case (Some e)
    with Pair have "Renderer h result = (out, Some e)" by simp
    from HandlerFunc_render_fails [OF assms this, of newrelicApp] show ?thesis by simp
  qed
qed

lemma showInt_90: "showInt 90 = ''90''"
  by (simp add: showInt_def showNat.simps)

text \<open>
  The Cache-Control value where the code computes what is wanted. When the cache lifetime
  of the page does not parse, the value is \<open>public, max-age=3600\<close>. When it parses as
  the duration \<open>d\<close>, the code computes \<open>public, max-age=N\<close> with \<open>N\<close> being
  \<^verbatim>\<open>int(d.Seconds())\<close>, and for every duration shorter than \<open>2\<^sup>2\<^sup>4\<close> seconds (194
  days), negative or not, this is the whole seconds of \<open>d\<close>. The value is the only
  header that the handler made from this configuration sets on a request whose generation
  succeeded.
\<close>

theorem NewHandlerConfig_cache_control_whole_seconds:
  "(ParseDuration env (CacheTTL page) = Inl err \<longrightarrow>
      CacheControl (NewHandlerConfig env page) = ''public, max-age=3600'')
   \<and> (ParseDuration env (CacheTTL page) = Inr d \<longrightarrow>
      CacheControl (NewHandlerConfig env page) = ''public, max-age='' @ showInt (toInt (Seconds d)))
   \<and> (ParseDuration env (CacheTTL page) = Inr d \<and> \<bar>d\<bar> < 2 ^ 24 * Second \<longrightarrow>
      CacheControl (NewHandlerConfig env page) = ''public, max-age='' @ showInt (quo d Second))
   \<and> (ResponseGenerator (NewHandlerConfig env page) c = Inr result \<longrightarrow>
      filter isHeader
        (HandlerFunc newrelicApp (NewHandler (NewHandlerConfig env page) subscriptionChan input) c)
      = [Header ''Cache-Control'' (CacheControl (NewHandlerConfig env page))])"
proof (intro conjI impI)
  assume "ParseDuration env (CacheTTL page) = Inl err"
  then show "CacheControl (NewHandlerConfig env page) = ''public, max-age=3600''"
    by (simp add: CacheControl_of_NewHandlerConfig cacheControlOf_Hour)
next
  assume "ParseDuration env (CacheTTL page) = Inr d"
  then show "CacheControl (NewHandlerConfig env page)
      = ''public, max-age='' @ showInt (toInt (Seconds d))"
    by (simp add: CacheControl_of_NewHandlerConfig cacheControlOf_def)
next
  assume "ParseDuration env (CacheTTL page) = Inr d \<and> \<bar>d\<bar> < 2 ^ 24 * Second"
  then have parsed: "ParseDuration env (CacheTTL page) = Inr d"
    and short: "\<bar>d\<bar> < 2 ^ 24 * Second"
    by simp_all
  from parsed show "CacheControl (NewHandlerConfig env page)
      = ''public, max-age='' @ showInt (quo d Second)"
    by (simp add: CacheControl_of_NewHandlerConfig cacheControlOf_def Seconds_whole [OF short])
next
  assume "ResponseGenerator (NewHandlerConfig env page) c = Inr result"
  then have "ResponseGenerator (NewHandler (NewHandlerConfig env page) subscriptionChan input) c
      = Inr result"
    by (simp add: NewHandler_fields)
  from HandlerFunc_header [OF this, of newrelicApp]
  show "filter isHeader
        (HandlerFunc newrelicApp (NewHandler (NewHandlerConfig env page) subscriptionChan input) c)
      = [Header ''Cache-Control'' (CacheControl (NewHandlerConfig env page))]"
    by (simp add: NewHandler_fields)
qed

theorem NewHandlerConfig_cache_control_whole_seconds_witness:
  "CacheControl (NewHandlerConfig siteImports (homePage\<lparr>CacheTTL := ''soon''\<rparr>))
     = ''public, max-age=3600''
   \<and> CacheControl (NewHandlerConfig siteImports homePage) = ''public, max-age=90''
   \<and> filter isHeader (HandlerFunc False (NewHandler (NewHandlerConfig siteImports homePage) 7 8) ''/'')
     = [Header ''Cache-Control'' ''public, max-age=90'']"
proof -
  have soon: "ParseDuration siteImports (CacheTTL (homePage\<lparr>CacheTTL := ''soon''\<rparr>))
      = Inl ''time: invalid duration soon''"
    by (simp add: siteImports_def knownDurations_def)
  have parsed: "ParseDuration siteImports (CacheTTL homePage) = Inr (90 * Second)"
    by (simp add: siteImports_def knownDurations_def homePage_def)
  have short: "\<bar>90 * Second\<bar> < 2 ^ 24 * Second"
    by (simp add: Second_def)
  have whole: "quo (90 * Second) Second = 90"
    by (simp add: quo_def Second_def)
  have gen: "ResponseGenerator (NewHandlerConfig siteImports homePage) ''/'' = Inr ''title=api2html''"
    by (simp add: NewHandlerConfig_def Let_def homePage_def StaticResponseGenerator_def)
  from NewHandlerConfig_cache_control_whole_seconds [THEN conjunct1,
      of siteImports "homePage\<lparr>CacheTTL := ''soon''\<rparr>" "''time: invalid duration soon''"] soon
  have 1: "CacheControl (NewHandlerConfig siteImports (homePage\<lparr>CacheTTL := ''soon''\<rparr>))
      = ''public, max-age=3600''"
    by blast
  from NewHandlerConfig_cache_control_whole_seconds [THEN conjunct2, THEN conjunct2, THEN conjunct1,
      of siteImports homePage "90 * Second"] parsed short
  have 2: "CacheControl (NewHandlerConfig siteImports homePage) = ''public, max-age=90''"
    by (simp add: whole showInt_90)
  from NewHandlerConfig_cache_control_whole_seconds [THEN conjunct2, THEN conjunct2, THEN conjunct2,
      of siteImports homePage "''/''" "''title=api2html''" False 7 8] gen
  have "filter isHeader (HandlerFunc False (NewHandler (NewHandlerConfig siteImports homePage) 7 8) ''/'')
      = [Header ''Cache-Control'' (CacheControl (NewHandlerConfig siteImports homePage))]"
    by blast
  with 1 2 show ?thesis by simp
qed

text \<open>
  Claim C7. The Cache-Control value is to be \<open>public, max-age=N\<close> with \<open>N\<close> the whole
  seconds of the parsed lifetime. The code misses this at the lifetime
  \<open>16777216s999999999ns\<close>: it parses as a duration of 16777216 whole seconds, and the
  value that \<^verbatim>\<open>NewHandlerConfig\<close> computes is \<open>public, max-age=16777217\<close>, because the
  sum \<^verbatim>\<open>float64(sec) + float64(nsec)/1e9\<close> of \<^verbatim>\<open>d.Seconds()\<close> is rounded up to the next
  second before \<^verbatim>\<open>int\<close> drops the fraction.
\<close>

theorem NewHandlerConfig_cache_control_rounds_up:
  "ParseDuration siteImports (CacheTTL (homePage\<lparr>CacheTTL := ''16777216s999999999ns''\<rparr>))
     = Inr 16777216999999999
   \<and> quo 16777216999999999 Second = 16777216
   \<and> CacheControl (NewHandlerConfig siteImports (homePage\<lparr>CacheTTL := ''16777216s999999999ns''\<rparr>))
     = ''public, max-age=16777217''"
proof (intro conjI)
  show parsed: "ParseDuration siteImports (CacheTTL (homePage\<lparr>CacheTTL := ''16777216s999999999ns''\<rparr>))
     = Inr 16777216999999999"
    by (simp add: siteImports_def knownDurations_def Second_def)
  show "quo 16777216999999999 Second = 16777216"
    by (simp add: quo_def Second_def)
  have "cacheControlOf 16777216999999999 = ''public, max-age=16777217''"
    by (simp add: cacheControlOf_def Seconds_rounds_up toInt_def showInt_16777217)
  with parsed
  show "CacheControl (NewHandlerConfig siteImports (homePage\<lparr>CacheTTL := ''16777216s999999999ns''\<rparr>))
     = ''public, max-age=16777217''"
    by (simp add: CacheControl_of_NewHandlerConfig)
qed

text \<open>
  Claim C8. For a page whose backend URL pattern is empty, the generator that
  \<^verbatim>\<open>NewHandlerConfig\<close> binds, and that \<^verbatim>\<open>NewHandler\<close> hands to the handler, returns for
  every request the fixed payload of the page and no error, so two requests get the same
  data.
\<close>

theorem NewHandlerConfig_static_generator:
  "BackendURLPattern page = '''' \<longrightarrow>
     ResponseGenerator (NewHandlerConfig env page) c = Inr (FixedPayload page)
     \<and> ResponseGenerator (NewHandler (NewHandlerConfig env page) subscriptionChan input) c
         = Inr (FixedPayload page)
     \<and> ResponseGenerator (NewHandlerConfig env page) c
         = ResponseGenerator (NewHandlerConfig env page) c'"
proof
  assume static: "BackendURLPattern page = ''''"
  have bound: "ResponseGenerator (NewHandlerConfig env page) = StaticResponseGenerator page"
    using static by (rule NewHandlerConfig_binds_static)
  have copied: "ResponseGenerator (NewHandler (NewHandlerConfig env page) subscriptionChan input)
      = StaticResponseGenerator page"
    by (simp only: NewHandler_fields bound)
  show "ResponseGenerator (NewHandlerConfig env page) c = Inr (FixedPayload page)
     \<and> ResponseGenerator (NewHandler (NewHandlerConfig env page) subscriptionChan input) c
         = Inr (FixedPayload page)
     \<and> ResponseGenerator (NewHandlerConfig env page) c
         = ResponseGenerator (NewHandlerConfig env page) c'"
    unfolding bound copied by (simp add: StaticResponseGenerator_def)
qed

theorem NewHandlerConfig_static_generator_witness:
  "ResponseGenerator (NewHandlerConfig siteImports homePage) ''/?page=2'' = Inr ''title=api2html''
   \<and> ResponseGenerator (NewHandler (NewHandlerConfig siteImports homePage) 7 8) ''/?page=2''
       = Inr ''title=api2html''"
proof -
  have "BackendURLPattern homePage = ''''" by (simp add: homePage_def)
  with NewHandlerConfig_static_generator [of homePage siteImports "''/?page=2''" 7 8]
  show ?thesis by (simp add: homePage_def)
qed

end
